theory Spec2Isabelle
  imports
    Complex_Main
    "HOL-Library.Multiset"
    "HOL-Library.List_Lexorder"
    "HOL-Library.Char_ord"
    "HOL-Library.AList"
    "HOL-Library.Sublist"
begin

section \<open>JavaScript strings\<close>

text \<open>
  Strings are lists of characters, ordered as JavaScript orders strings with \<open><\<close>: by
  code units, the shorter of two strings first when it is a prefix of the other.  The
  model names, session ids, keys and timestamps the program handles are ASCII, where a
  character of the model is one UTF-16 code unit of the source.  On such strings
  \<open>String.prototype.trim\<close> strips blanks, tabs and line breaks from both ends,
  \<open>toLowerCase\<close> maps \<open>A\<close>..\<open>Z\<close> to \<open>a\<close>..\<open>z\<close>, \<open>includes\<close> is the
  substring test and \<open>Array.prototype.join\<close> concatenates with a separator.
\<close>

definition is_space :: "char \<Rightarrow> bool" where
  "is_space c = (c \<in> set [CHR '' '', CHR 0x09, CHR 0x0A, CHR 0x0B, CHR 0x0C, CHR 0x0D])"

definition trim :: "string \<Rightarrow> string" where
  "trim s = rev (dropWhile is_space (rev (dropWhile is_space s)))"

definition lower_char :: "char \<Rightarrow> char" where
  "lower_char c =
     (if CHR ''A'' \<le> c \<and> c \<le> CHR ''Z'' then char_of (of_char c + (32::nat)) else c)"

definition toLowerCase :: "string \<Rightarrow> string" where
  "toLowerCase s = map lower_char s"

text \<open>\<open>includes_str s t\<close> is the source's \<open>s.includes(t)\<close>.\<close>

fun includes_str :: "string \<Rightarrow> string \<Rightarrow> bool" where
  "includes_str [] t = (t = [])"
| "includes_str (c # cs) t = (prefix t (c # cs) \<or> includes_str cs t)"

fun join :: "string \<Rightarrow> string list \<Rightarrow> string" where
  "join sep [] = []"
| "join sep [x] = x"
| "join sep (x # y # ys) = x @ sep @ join sep (y # ys)"

text \<open>Decimal rendering of a length inside a template literal.\<close>

function show_nat :: "nat \<Rightarrow> string" where
  "show_nat n =
     (if n < 10 then [char_of (48 + n)]
      else show_nat (n div 10) @ [char_of (48 + n mod 10)])"
  by pat_completeness auto
termination
  by (relation "measure id") auto

declare show_nat.simps [simp del]

section \<open>JavaScript arrays and objects\<close>

text \<open>
  \<open>Array.prototype.sort\<close> with a comparison function is a stable sort.  The function
  answers with a number: negative when its first argument goes before the second, positive
  when it goes after, zero when the two keep the order they have.  For a consistent
  comparison function (\<open>consistent_comparator\<close> below) there is one stable sorted
  arrangement of an array, which insertion from the right computes: an element is put
  before the first element it does not go after, so before the equal elements that
  followed it in the array.  For an inconsistent function the order that
  \<open>sort\<close> produces is left open by the language; nothing is stated about it.
\<close>

fun insertBy :: "('a \<Rightarrow> 'a \<Rightarrow> int) \<Rightarrow> 'a \<Rightarrow> 'a list \<Rightarrow> 'a list" where
  "insertBy comparefn x [] = [x]"
| "insertBy comparefn x (y # ys) =
     (if comparefn x y \<le> 0 then x # y # ys else y # insertBy comparefn x ys)"

definition array_sort :: "('a \<Rightarrow> 'a \<Rightarrow> int) \<Rightarrow> 'a list \<Rightarrow> 'a list" where
  "array_sort comparefn xs = foldr (insertBy comparefn) xs []"

text \<open>
  A comparison function is consistent when its answers are those of a total preorder:
  \<open>a\<close> goes before \<open>b\<close> exactly when \<open>b\<close> goes after \<open>a\<close>, and "not after" is
  transitive.  The collation behind \<open>localeCompare\<close> is of this kind.
\<close>

definition consistent_comparator :: "('a \<Rightarrow> 'a \<Rightarrow> int) \<Rightarrow> bool" where
  "consistent_comparator c \<longleftrightarrow>
     (\<forall>a b. c a b < 0 \<longleftrightarrow> 0 < c b a)
     \<and> (\<forall>a b d. c a b \<le> 0 \<and> c b d \<le> 0 \<longrightarrow> c a d \<le> 0)"

text \<open>No two keys of a list compare as equal: the keys are distinct and none ties with another.\<close>

definition tie_free :: "('a \<Rightarrow> 'a \<Rightarrow> int) \<Rightarrow> 'a list \<Rightarrow> bool" where
  "tie_free c ks \<longleftrightarrow> distinct ks \<and> (\<forall>a \<in> set ks. \<forall>b \<in> set ks. c a b = 0 \<longrightarrow> a = b)"

text \<open>The elements of a list in the order of their first occurrence.\<close>

fun firstSeen :: "'a list \<Rightarrow> 'a list" where
  "firstSeen [] = []"
| "firstSeen (x # xs) = x # removeAll x (firstSeen xs)"

text \<open>
  A plain object used as a \<open>Record\<close> is the list of its own enumerable properties in
  the order in which \<open>Object.keys\<close>, \<open>Object.entries\<close> and \<open>JSON.stringify\<close>
  list them: first the keys that are array indices (the decimal numeral, without leading
  zeros, of an integer below \<open>2\<^sup>3\<^sup>2 - 1\<close>) in ascending numeric order, then the other
  keys in the order of their creation.
\<close>

definition is_digit :: "char \<Rightarrow> bool" where
  "is_digit c = (CHR ''0'' \<le> c \<and> c \<le> CHR ''9'')"

definition digits_value :: "string \<Rightarrow> int" where
  "digits_value s = foldl (\<lambda>n c. 10 * n + (of_char c - 48)) 0 s"

definition isArrayIndex :: "string \<Rightarrow> bool" where
  "isArrayIndex k =
     (k \<noteq> [] \<and> list_all is_digit k \<and> (k = ''0'' \<or> hd k \<noteq> CHR ''0'')
      \<and> digits_value k < 4294967295)"

text \<open>A new array-index key goes behind the array-index keys that are smaller.\<close>

fun insertIndexed :: "string \<Rightarrow> 'v \<Rightarrow> (string \<times> 'v) list \<Rightarrow> (string \<times> 'v) list" where
  "insertIndexed k v [] = [(k, v)]"
| "insertIndexed k v ((k', v') # rest) =
     (if isArrayIndex k' \<and> digits_value k' < digits_value k
      then (k', v') # insertIndexed k v rest
      else (k, v) # (k', v') # rest)"

text \<open>
  The assignment \<open>obj[k] = v\<close> of an object \<open>v\<close> on an object created by \<open>{}\<close>.
  The key \<open>__proto__\<close> is the accessor that \<open>Object.prototype\<close> provides: assigning
  to it replaces the prototype of \<open>obj\<close> and creates no property.  Any other key names a
  property of \<open>obj\<close> itself, which is overwritten in place when it exists and created
  otherwise.
\<close>

definition objectSet :: "(string \<times> 'v) list \<Rightarrow> string \<Rightarrow> 'v \<Rightarrow> (string \<times> 'v) list" where
  "objectSet obj k v =
     (if k = ''__proto__'' then obj
      else if map_of obj k \<noteq> None then AList.update k v obj
      else if isArrayIndex k then insertIndexed k v obj
      else obj @ [(k, v)])"

section \<open>Pricing resolution (pricing.ts)\<close>

text \<open>
  A JavaScript number that holds a price is a real number of the model; \<open>throw new
  Error(msg)\<close> is the value \<open>Inl (Error msg)\<close>.
\<close>

datatype error = Error string

text \<open>
  The fields of a LiteLLM price record that the resolver reads; each may be absent.
\<close>

record LiteLLMModelPricing =
  input_cost_per_token :: "real option"
  output_cost_per_token :: "real option"
  cache_read_input_token_cost :: "real option"

datatype PricingResolution = Direct | Alias | Fuzzy | Fallback

record ModelPricing =
  inputCostPerMToken :: real
  cachedInputCostPerMToken :: real
  outputCostPerMToken :: real
  pricingResolution :: PricingResolution
  pricingModel :: string

text \<open>
  The price list is a JavaScript \<open>Map\<close>: its keys are unique and it is iterated in
  insertion order.  It is an association list here; \<open>pricingMap.get(k)\<close> is
  \<open>map_of pricingMap k\<close>.
\<close>

type_synonym pricing_map = "(string \<times> LiteLLMModelPricing) list"

record ResolvedPricing =
  key :: string
  pricing :: LiteLLMModelPricing
  resolution :: PricingResolution

text \<open>
  Modelled from the spec: the constant \<open>MILLION\<close> of \<open>_consts.ts\<close>, which is not
  among the sources; the spec converts per-token costs "by multiplying by 1,000,000",
  and the test of pricing.ts expects 1.25e-6 per token to become 1.25.
\<close>

definition MILLION :: real where
  "MILLION = 1000000"

definition CODEX_PROVIDER_PREFIXES :: "string list" where
  "CODEX_PROVIDER_PREFIXES = [''openai/'', ''azure/'', ''openrouter/openai/'']"

definition CODEX_MODEL_ALIASES_MAP :: "(string \<times> string) list" where
  "CODEX_MODEL_ALIASES_MAP = [(''gpt-5-codex'', ''gpt-5'')]"

definition toPerMillion :: "real option \<Rightarrow> real option \<Rightarrow> error + real" where
  "toPerMillion val fallback =
     (case (case val of Some v \<Rightarrow> Some v | None \<Rightarrow> fallback) of
        None \<Rightarrow> Inl (Error ''Missing required pricing value'')
      | Some perToken \<Rightarrow> Inr (perToken * MILLION))"

text \<open>
  The instance fields of \<open>CodexPricingSource\<close> that resolution reads; the constructor
  has already replaced an absent \<open>allowFuzzyPricing\<close> by \<open>false\<close>.
\<close>

record CodexPricingSource =
  allowFuzzyPricing :: bool
  unknownModelFallback :: "string option"

definition createResolvedPricing ::
  "string \<Rightarrow> LiteLLMModelPricing \<Rightarrow> PricingResolution \<Rightarrow> ResolvedPricing" where
  "createResolvedPricing k p r = \<lparr>key = k, pricing = p, resolution = r\<rparr>"

text \<open>The loop of \<open>findDirectPricing\<close> over its candidates.\<close>

fun firstCandidate :: "pricing_map \<Rightarrow> string list \<Rightarrow> ResolvedPricing option" where
  "firstCandidate pricingMap [] = None"
| "firstCandidate pricingMap (candidate # rest) =
     (case map_of pricingMap candidate of
        Some p \<Rightarrow> Some (createResolvedPricing candidate p Direct)
      | None \<Rightarrow> firstCandidate pricingMap rest)"

definition findDirectPricing :: "pricing_map \<Rightarrow> string \<Rightarrow> ResolvedPricing option" where
  "findDirectPricing pricingMap model =
     firstCandidate pricingMap
       (model # map (\<lambda>pre. pre @ model) CODEX_PROVIDER_PREFIXES)"

definition findAliasPricing :: "pricing_map \<Rightarrow> string \<Rightarrow> ResolvedPricing option" where
  "findAliasPricing pricingMap model =
     (case map_of CODEX_MODEL_ALIASES_MAP model of
        None \<Rightarrow> None
      | Some alias \<Rightarrow>
          (case findDirectPricing pricingMap alias of
             None \<Rightarrow> None
           | Some aliasPricing \<Rightarrow>
               Some (createResolvedPricing (key aliasPricing) (pricing aliasPricing) Alias)))"

text \<open>The loop of \<open>findFuzzyPricing\<close>: \<open>matches\<close> grows by \<open>push\<close>.\<close>

fun collectMatches ::
  "string \<Rightarrow> pricing_map \<Rightarrow> (string \<times> LiteLLMModelPricing) list
     \<Rightarrow> (string \<times> LiteLLMModelPricing) list" where
  "collectMatches lower [] matches = matches"
| "collectMatches lower ((k, v) # rest) matches =
     (let comparison = toLowerCase k in
      if includes_str comparison lower \<or> includes_str lower comparison
      then collectMatches lower rest (matches @ [(k, v)])
      else collectMatches lower rest matches)"

definition ambiguousMessage :: "string \<Rightarrow> (string \<times> LiteLLMModelPricing) list \<Rightarrow> string" where
  "ambiguousMessage model matches =
     ''Ambiguous fuzzy pricing resolution for model '' @ model @ ''; ''
       @ show_nat (length matches) @ '' candidates found: ''
       @ join '', '' (map fst matches)"

definition findFuzzyPricing ::
  "pricing_map \<Rightarrow> string \<Rightarrow> error + ResolvedPricing option" where
  "findFuzzyPricing pricingMap model =
     (let lower = toLowerCase model;
          matches = collectMatches lower pricingMap []
      in if length matches = 0 then Inr None
         else if length matches > 1 then Inl (Error (ambiguousMessage model matches))
         else (case matches of
                 [] \<Rightarrow> Inr None
               | match # _ \<Rightarrow>
                   Inr (Some (createResolvedPricing (fst match) (snd match) Fuzzy))))"

definition incompleteMessage :: "string \<Rightarrow> string" where
  "incompleteMessage model =
     ''Pricing for model '' @ model
       @ '' is incomplete: input_cost_per_token and output_cost_per_token are required''"

definition normalizeModelPricing :: "string \<Rightarrow> ResolvedPricing \<Rightarrow> error + ModelPricing" where
  "normalizeModelPricing model resolved =
     (case (input_cost_per_token (pricing resolved),
            output_cost_per_token (pricing resolved)) of
        (Some inputCostPerToken, Some outputCostPerToken) \<Rightarrow>
          (case toPerMillion (Some inputCostPerToken) None of
             Inl e \<Rightarrow> Inl e
           | Inr i \<Rightarrow>
          (case toPerMillion
                  (case cache_read_input_token_cost (pricing resolved) of
                     Some c \<Rightarrow> Some c
                   | None \<Rightarrow> Some inputCostPerToken) None of
             Inl e \<Rightarrow> Inl e
           | Inr c \<Rightarrow>
          (case toPerMillion (Some outputCostPerToken) None of
             Inl e \<Rightarrow> Inl e
           | Inr out \<Rightarrow>
               Inr \<lparr>inputCostPerMToken = i,
                    cachedInputCostPerMToken = c,
                    outputCostPerMToken = out,
                    pricingResolution = resolution resolved,
                    pricingModel = key resolved\<rparr>)))
      | _ \<Rightarrow> Inl (Error (incompleteMessage model)))"

definition fallbackFailedMessage :: "string \<Rightarrow> string \<Rightarrow> string" where
  "fallbackFailedMessage fallbackModel model =
     ''Configured fallback model '' @ fallbackModel
       @ '' could not be resolved for '' @ model"

definition fallbackWarning :: "string \<Rightarrow> string \<Rightarrow> string" where
  "fallbackWarning model fallbackModel =
     ''Using fallback model pricing: '' @ model @ '' -> '' @ fallbackModel"

definition notFoundMessage :: "bool \<Rightarrow> string \<Rightarrow> string" where
  "notFoundMessage allowFuzzy model =
     (if \<not> allowFuzzy
      then ''Pricing not found for model '' @ model
             @ ''. Fuzzy matching is disabled; pass --allow-fuzzy-pricing to enable it.''
      else ''Pricing not found for model '' @ model)"

text \<open>
  \<open>getPricing\<close>.  The first argument of the result is the list of \<open>logger.warn\<close> lines
  the call has emitted, the second what it returns or throws.  \<open>fetched\<close> is the
  outcome of \<open>getPricingMap\<close>, whose failure is rethrown.  The four stages assign
  \<open>resolvedPricing\<close> in turn, each only while it is still \<open>null\<close>.
\<close>

definition getPricing ::
  "CodexPricingSource \<Rightarrow> error + pricing_map \<Rightarrow> string
     \<Rightarrow> string list \<times> (error + ModelPricing)" where
  "getPricing this fetched model =
     (case fetched of
        Inl e \<Rightarrow> ([], Inl e)
      | Inr pricingMap \<Rightarrow>
     (let r1 = findDirectPricing pricingMap model;
          r2 = (case r1 of None \<Rightarrow> findAliasPricing pricingMap model | Some r \<Rightarrow> Some r)
      in
      case (case r2 of
              None \<Rightarrow> if allowFuzzyPricing this then findFuzzyPricing pricingMap model
                      else Inr None
            | Some r \<Rightarrow> Inr (Some r)) of
        Inl e \<Rightarrow> ([], Inl e)
      | Inr r3 \<Rightarrow>
     (case (case (r3, unknownModelFallback this) of
              (None, Some fb) \<Rightarrow>
                (let fallbackModel = trim fb in
                 if fallbackModel \<noteq> []
                 then (case (case findDirectPricing pricingMap fallbackModel of
                               Some r \<Rightarrow> Some r
                             | None \<Rightarrow> findAliasPricing pricingMap fallbackModel) of
                         None \<Rightarrow> Inl (Error (fallbackFailedMessage fallbackModel model))
                       | Some fallbackPricing \<Rightarrow>
                           Inr ([fallbackWarning model fallbackModel],
                                Some (createResolvedPricing (key fallbackPricing)
                                        (pricing fallbackPricing) Fallback)))
                 else Inr ([], r3))
            | _ \<Rightarrow> Inr ([], r3)) of
        Inl e \<Rightarrow> ([], Inl e)
      | Inr (warnings, r4) \<Rightarrow>
          (case r4 of
             None \<Rightarrow> (warnings, Inl (Error (notFoundMessage (allowFuzzyPricing this) model)))
           | Some resolvedPricing \<Rightarrow>
               (warnings, normalizeModelPricing model resolvedPricing)))))"

subsection \<open>The resolution tiers as the specification words them\<close>

text \<open>
  The specification describes resolution as a list of tiers tried in order, each of which
  finds nothing, finds a record, or fails hard; the first tier that does not find nothing
  decides.  These definitions follow the specification, to be compared with
  \<open>getPricing\<close> above.  The fallback tier is in the list when a fallback name is
  configured and, as the guard of \<open>getPricing\<close> has it, not blank after trimming.
\<close>

datatype tier_outcome = NoMatch | Match ResolvedPricing | Raise error

fun first_success :: "tier_outcome list \<Rightarrow> tier_outcome" where
  "first_success [] = NoMatch"
| "first_success (NoMatch # ts) = first_success ts"
| "first_success (Match r # ts) = Match r"
| "first_success (Raise e # ts) = Raise e"

definition spec_direct :: "pricing_map \<Rightarrow> string \<Rightarrow> tier_outcome" where
  "spec_direct pm m =
     (case find (\<lambda>c. c \<in> set (map fst pm))
             [m, ''openai/'' @ m, ''azure/'' @ m, ''openrouter/openai/'' @ m] of
        None \<Rightarrow> NoMatch
      | Some c \<Rightarrow>
          (case map_of pm c of
             None \<Rightarrow> NoMatch
           | Some p \<Rightarrow> Match \<lparr>key = c, pricing = p, resolution = Direct\<rparr>))"

definition spec_alias :: "pricing_map \<Rightarrow> string \<Rightarrow> tier_outcome" where
  "spec_alias pm m =
     (case map_of CODEX_MODEL_ALIASES_MAP m of
        None \<Rightarrow> NoMatch
      | Some canonical \<Rightarrow>
          (case spec_direct pm canonical of
             Match r \<Rightarrow> Match (r\<lparr>resolution := Alias\<rparr>)
           | t \<Rightarrow> t))"

definition fuzzy_match :: "string \<Rightarrow> string \<Rightarrow> bool" where
  "fuzzy_match m k =
     (includes_str (toLowerCase k) (toLowerCase m) \<or> includes_str (toLowerCase m) (toLowerCase k))"

definition spec_fuzzy :: "pricing_map \<Rightarrow> string \<Rightarrow> tier_outcome" where
  "spec_fuzzy pm m =
     (case filter (\<lambda>(k, p). fuzzy_match m k) pm of
        [] \<Rightarrow> NoMatch
      | [(k, p)] \<Rightarrow> Match \<lparr>key = k, pricing = p, resolution = Fuzzy\<rparr>
      | ms \<Rightarrow> Raise (Error (ambiguousMessage m ms)))"

definition spec_fallback :: "pricing_map \<Rightarrow> string \<Rightarrow> string \<Rightarrow> tier_outcome" where
  "spec_fallback pm fb m =
     (case first_success [spec_direct pm fb, spec_alias pm fb] of
        Match r \<Rightarrow> Match (r\<lparr>resolution := Fallback\<rparr>)
      | _ \<Rightarrow> Raise (Error (fallbackFailedMessage fb m)))"

definition spec_tiers :: "CodexPricingSource \<Rightarrow> pricing_map \<Rightarrow> string \<Rightarrow> tier_outcome list" where
  "spec_tiers this pm m =
     [spec_direct pm m, spec_alias pm m]
       @ (if allowFuzzyPricing this then [spec_fuzzy pm m] else [])
       @ (case unknownModelFallback this of
            None \<Rightarrow> []
          | Some fb \<Rightarrow> if trim fb = [] then [] else [spec_fallback pm (trim fb) m])"

text \<open>Price records for the examples.\<close>

definition priceA :: LiteLLMModelPricing where
  "priceA = \<lparr>input_cost_per_token = Some (1 / 1000000), output_cost_per_token = Some (8 / 1000000),
            cache_read_input_token_cost = None\<rparr>"

definition priceB :: LiteLLMModelPricing where
  "priceB = \<lparr>input_cost_per_token = Some (2 / 1000000), output_cost_per_token = Some (9 / 1000000),
            cache_read_input_token_cost = Some (1 / 2000000)\<rparr>"

definition priceNoInput :: LiteLLMModelPricing where
  "priceNoInput = \<lparr>input_cost_per_token = None, output_cost_per_token = Some (8 / 1000000),
                   cache_read_input_token_cost = None\<rparr>"

section \<open>Usage events, summaries and report rows (_types.ts)\<close>

text \<open>
  Token counts are JavaScript numbers holding integers; they are unbounded integers
  here.  A cost in USD is a real number.  Several types of the source share field
  names; a field is written with its record's name where that is ambiguous.
\<close>

record TokenUsageDelta =
  inputTokens :: int
  cachedInputTokens :: int
  outputTokens :: int
  reasoningOutputTokens :: int
  totalTokens :: int

text \<open>
  \<open>sessionId\<close> is declared a string, but \<open>buildSessionReport\<close> tests it against
  \<open>null\<close>, so an event may lack it as it may lack \<open>model\<close>.
\<close>

record TokenUsageEvent = TokenUsageDelta +
  timestamp :: string
  sessionId :: "string option"
  model :: "string option"
  isFallbackModel :: "bool option"

record ModelUsage = TokenUsageDelta +
  isFallback :: "bool option"
  pricingResolution :: "PricingResolution option"
  pricingModel :: "string option"

text \<open>
  \<open>models\<close> is a \<open>Map\<close> in insertion order: an association list with
  \<open>get = map_of\<close> and \<open>set = AList.update\<close>, which replaces the value of a key
  in place and appends a new key at the end.
\<close>

record DailyUsageSummary = TokenUsageDelta +
  date :: string
  firstTimestamp :: string
  costUSD :: real
  models :: "(string \<times> ModelUsage) list"

record MonthlyUsageSummary = TokenUsageDelta +
  month :: string
  firstTimestamp :: string
  costUSD :: real
  models :: "(string \<times> ModelUsage) list"

record SessionUsageSummary = TokenUsageDelta +
  sessionId :: string
  firstTimestamp :: string
  lastTimestamp :: string
  costUSD :: real
  models :: "(string \<times> ModelUsage) list"

text \<open>
  The \<open>models\<close> of a row is a \<open>Record\<close>: a plain object, filled key by key from
  the summary's \<open>Map\<close> with \<open>objectSet\<close>.
\<close>

record DailyReportRow = TokenUsageDelta +
  date :: string
  costUSD :: real
  models :: "(string \<times> ModelUsage) list"

record MonthlyReportRow = TokenUsageDelta +
  month :: string
  costUSD :: real
  models :: "(string \<times> ModelUsage) list"

record SessionReportRow = TokenUsageDelta +
  sessionId :: string
  lastActivity :: string
  sessionFile :: string
  directory :: string
  costUSD :: real
  models :: "(string \<times> ModelUsage) list"

text \<open>
  \<open>DailyReportOptions\<close>, \<open>MonthlyReportOptions\<close> and \<open>SessionReportOptions\<close> are
  the same type.  The pricing source is any function from a model name to a pricing
  record or an error.
\<close>

record ReportOptions =
  timezone :: "string option"
  locale_opt :: "string option"
  since :: "string option"
  until :: "string option"
  pricingSource :: "string \<Rightarrow> error + ModelPricing"

section \<open>Helpers of token-utils.ts and date-utils.ts\<close>

text \<open>
  Modelled from the spec: \<open>createEmptyUsage\<close> of \<open>token-utils.ts\<close>, which is not
  among the sources: the usage a fresh sub-total starts from, all five counts zero.
\<close>

definition createEmptyUsage :: TokenUsageDelta where
  "createEmptyUsage =
     \<lparr>inputTokens = 0, cachedInputTokens = 0, outputTokens = 0,
      reasoningOutputTokens = 0, totalTokens = 0\<rparr>"

text \<open>
  Modelled from the spec: \<open>addUsage\<close> of \<open>token-utils.ts\<close>, which is not among the
  sources: "Numeric addition is simple integer summation across all five delta fields".
  The source mutates \<open>target\<close>; the model returns it updated.
\<close>

definition addUsage ::
  "'a TokenUsageDelta_scheme \<Rightarrow> 'b TokenUsageDelta_scheme \<Rightarrow> 'a TokenUsageDelta_scheme" where
  "addUsage target delta =
     target\<lparr>inputTokens := inputTokens target + inputTokens delta,
            cachedInputTokens := cachedInputTokens target + cachedInputTokens delta,
            outputTokens := outputTokens target + outputTokens delta,
            reasoningOutputTokens := reasoningOutputTokens target + reasoningOutputTokens delta,
            totalTokens := totalTokens target + totalTokens delta\<rparr>"

text \<open>
  Modelled from the spec: \<open>calculateCostUSD\<close> of \<open>token-utils.ts\<close>, which is not
  among the sources: \<open>(inputTokens - cachedInputTokens) / 1e6 * inputCostPerMToken +
  cachedInputTokens / 1e6 * cachedInputCostPerMToken +
  outputTokens / 1e6 * outputCostPerMToken\<close>.
\<close>

definition calculateCostUSD :: "'a TokenUsageDelta_scheme \<Rightarrow> ModelPricing \<Rightarrow> real" where
  "calculateCostUSD usage p =
     real_of_int (inputTokens usage - cachedInputTokens usage) / MILLION
         * inputCostPerMToken p
     + real_of_int (cachedInputTokens usage) / MILLION * cachedInputCostPerMToken p
     + real_of_int (outputTokens usage) / MILLION * outputCostPerMToken p"

text \<open>
  Modelled from the spec: \<open>isWithinRange\<close> of \<open>date-utils.ts\<close>, which is not among
  the sources: the "inclusive \<open>[since, until]\<close> date filter", each bound optional, on
  day keys of the form \<open>YYYY-MM-DD\<close> compared as strings.
\<close>

definition isWithinRange :: "string \<Rightarrow> string option \<Rightarrow> string option \<Rightarrow> bool" where
  "isWithinRange dateKey since_opt until_opt =
     ((case since_opt of None \<Rightarrow> True | Some s \<Rightarrow> s \<le> dateKey)
      \<and> (case until_opt of None \<Rightarrow> True | Some u \<Rightarrow> dateKey \<le> u))"

text \<open>
  The remaining functions of \<open>date-utils.ts\<close> convert a timestamp to the calendar day
  or month of a time zone and format a key for display.  They are parameters of the
  model: \<open>toDateKey du ts tz\<close> is the source's \<open>toDateKey(ts, tz)\<close>.
\<close>

record DateUtils =
  toDateKey :: "string \<Rightarrow> string option \<Rightarrow> string"
  toMonthKey :: "string \<Rightarrow> string option \<Rightarrow> string"
  formatDisplayDate :: "string \<Rightarrow> string option \<Rightarrow> string option \<Rightarrow> string"
  formatDisplayMonth :: "string \<Rightarrow> string option \<Rightarrow> string option \<Rightarrow> string"

section \<open>The report builders\<close>

text \<open>
  The three builders repeat one block for the per-model sub-total: fetch the model's
  usage or start \<open>{...createEmptyUsage(), isFallback: false}\<close>, add the event, and set
  \<open>isFallback\<close> when the event carries \<open>isFallbackModel === true\<close>.
\<close>

definition emptyModelUsage :: ModelUsage where
  "emptyModelUsage =
     \<lparr>inputTokens = inputTokens createEmptyUsage,
      cachedInputTokens = cachedInputTokens createEmptyUsage,
      outputTokens = outputTokens createEmptyUsage,
      reasoningOutputTokens = reasoningOutputTokens createEmptyUsage,
      totalTokens = totalTokens createEmptyUsage,
      isFallback = Some False, pricingResolution = None, pricingModel = None\<rparr>"

definition addModelUsage ::
  "(string \<times> ModelUsage) list \<Rightarrow> string \<Rightarrow> TokenUsageEvent \<Rightarrow> (string \<times> ModelUsage) list" where
  "addModelUsage ms modelName event =
     (let modelUsage = (case map_of ms modelName of Some u \<Rightarrow> u | None \<Rightarrow> emptyModelUsage);
          modelUsage1 = addUsage modelUsage event;
          modelUsage2 = (if isFallbackModel event = Some True
                         then modelUsage1\<lparr>isFallback := Some True\<rparr> else modelUsage1)
      in AList.update modelName modelUsage2 ms)"

text \<open>
  After the loop each builder collects the distinct model names (a \<open>Set\<close>, in order of
  first insertion), asks the pricing source for each of them in that order, the first
  failure aborting the build, and prices every row.
\<close>

definition uniqueModels :: "(string \<times> ModelUsage) list list \<Rightarrow> string list" where
  "uniqueModels mss =
     fold (\<lambda>modelName acc. if modelName \<in> set acc then acc else acc @ [modelName])
       (concat (map (map fst) mss)) []"

fun resolveModels ::
  "(string \<Rightarrow> error + ModelPricing) \<Rightarrow> string list \<Rightarrow> (string \<times> ModelPricing) list
     \<Rightarrow> error + (string \<times> ModelPricing) list" where
  "resolveModels ps [] modelPricing = Inr modelPricing"
| "resolveModels ps (modelName # rest) modelPricing =
     (case ps modelName of
        Inl e \<Rightarrow> Inl e
      | Inr p \<Rightarrow> resolveModels ps rest (AList.update modelName p modelPricing))"

definition rowCost ::
  "(string \<times> ModelPricing) list \<Rightarrow> (string \<times> ModelUsage) list \<Rightarrow> real" where
  "rowCost modelPricing ms =
     fold (\<lambda>(modelName, usage) cost.
             case map_of modelPricing modelName of
               None \<Rightarrow> cost
             | Some p \<Rightarrow> cost + calculateCostUSD usage p) ms 0"

definition rowModels ::
  "(string \<times> ModelPricing) list \<Rightarrow> (string \<times> ModelUsage) list \<Rightarrow> (string \<times> ModelUsage) list" where
  "rowModels modelPricing ms =
     fold (\<lambda>(modelName, usage) obj.
             objectSet obj modelName
               (usage\<lparr>pricingResolution :=
                         map_option ModelPricing.pricingResolution (map_of modelPricing modelName),
                       pricingModel :=
                         map_option ModelPricing.pricingModel (map_of modelPricing modelName)\<rparr>))
       ms []"

subsection \<open>buildDailyReport\<close>

definition createSummary_daily :: "string \<Rightarrow> string \<Rightarrow> DailyUsageSummary" where
  "createSummary_daily d initialTimestamp =
     \<lparr>inputTokens = 0, cachedInputTokens = 0, outputTokens = 0,
      reasoningOutputTokens = 0, totalTokens = 0,
      DailyUsageSummary.date = d,
      DailyUsageSummary.firstTimestamp = initialTimestamp,
      DailyUsageSummary.costUSD = 0,
      DailyUsageSummary.models = []\<rparr>"

text \<open>One pass of the loop over the events; \<open>continue\<close> returns the map unchanged.\<close>

definition dailyStep ::
  "DateUtils \<Rightarrow> ReportOptions \<Rightarrow> TokenUsageEvent
     \<Rightarrow> (string \<times> DailyUsageSummary) list \<Rightarrow> (string \<times> DailyUsageSummary) list" where
  "dailyStep du options event summaries =
     (case map_option trim (model event) of
        None \<Rightarrow> summaries
      | Some modelName \<Rightarrow>
          if modelName = [] then summaries
          else
            let dateKey = toDateKey du (timestamp event) (timezone options) in
            if \<not> isWithinRange dateKey (since options) (until options) then summaries
            else
              let summary = (case map_of summaries dateKey of
                               Some s \<Rightarrow> s
                             | None \<Rightarrow> createSummary_daily dateKey (timestamp event));
                  summary1 = addUsage summary event;
                  summary2 = summary1\<lparr>DailyUsageSummary.models :=
                               addModelUsage (DailyUsageSummary.models summary1) modelName event\<rparr>
              in AList.update dateKey summary2 summaries)"

definition dailySummaries ::
  "DateUtils \<Rightarrow> ReportOptions \<Rightarrow> TokenUsageEvent list \<Rightarrow> (string \<times> DailyUsageSummary) list" where
  "dailySummaries du options events = fold (dailyStep du options) events []"

text \<open>
  The summaries are sorted with the comparison function
  \<open>(a, b) => a.date.localeCompare(b.date)\<close>.  \<open>String.prototype.localeCompare\<close>
  compares by the collation of the host's default locale, which is not the code-unit
  order of \<open><\<close>; it is a parameter of the builders, \<open>localeCompare a b\<close> standing for
  \<open>a.localeCompare(b)\<close>.
\<close>

definition dailyRow ::
  "DateUtils \<Rightarrow> ReportOptions \<Rightarrow> (string \<times> ModelPricing) list \<Rightarrow> DailyUsageSummary
     \<Rightarrow> DailyReportRow" where
  "dailyRow du options modelPricing summary =
     \<lparr>inputTokens = inputTokens summary,
      cachedInputTokens = cachedInputTokens summary,
      outputTokens = outputTokens summary,
      reasoningOutputTokens = reasoningOutputTokens summary,
      totalTokens = totalTokens summary,
      DailyReportRow.date =
        formatDisplayDate du (DailyUsageSummary.date summary) (locale_opt options)
          (timezone options),
      DailyReportRow.costUSD = rowCost modelPricing (DailyUsageSummary.models summary),
      DailyReportRow.models = rowModels modelPricing (DailyUsageSummary.models summary)\<rparr>"

definition buildDailyReport ::
  "(string \<Rightarrow> string \<Rightarrow> int) \<Rightarrow> DateUtils \<Rightarrow> ReportOptions \<Rightarrow> TokenUsageEvent list
     \<Rightarrow> error + DailyReportRow list" where
  "buildDailyReport localeCompare du options events =
     (let summaries = dailySummaries du options events in
      case resolveModels (pricingSource options)
             (uniqueModels (map (\<lambda>(k, s). DailyUsageSummary.models s) summaries)) [] of
        Inl e \<Rightarrow> Inl e
      | Inr modelPricing \<Rightarrow>
          Inr (map (dailyRow du options modelPricing)
                 (array_sort
                    (\<lambda>a b. localeCompare (DailyUsageSummary.date a) (DailyUsageSummary.date b))
                    (map snd summaries))))"

subsection \<open>buildMonthlyReport\<close>

definition createSummary_monthly :: "string \<Rightarrow> string \<Rightarrow> MonthlyUsageSummary" where
  "createSummary_monthly m initialTimestamp =
     \<lparr>inputTokens = 0, cachedInputTokens = 0, outputTokens = 0,
      reasoningOutputTokens = 0, totalTokens = 0,
      MonthlyUsageSummary.month = m,
      MonthlyUsageSummary.firstTimestamp = initialTimestamp,
      MonthlyUsageSummary.costUSD = 0,
      MonthlyUsageSummary.models = []\<rparr>"

definition monthlyStep ::
  "DateUtils \<Rightarrow> ReportOptions \<Rightarrow> TokenUsageEvent
     \<Rightarrow> (string \<times> MonthlyUsageSummary) list \<Rightarrow> (string \<times> MonthlyUsageSummary) list" where
  "monthlyStep du options event summaries =
     (case map_option trim (model event) of
        None \<Rightarrow> summaries
      | Some modelName \<Rightarrow>
          if modelName = [] then summaries
          else
            let dateKey = toDateKey du (timestamp event) (timezone options) in
            if \<not> isWithinRange dateKey (since options) (until options) then summaries
            else
              let monthKey = toMonthKey du (timestamp event) (timezone options);
                  summary = (case map_of summaries monthKey of
                               Some s \<Rightarrow> s
                             | None \<Rightarrow> createSummary_monthly monthKey (timestamp event));
                  summary1 = addUsage summary event;
                  summary2 = summary1\<lparr>MonthlyUsageSummary.models :=
                               addModelUsage (MonthlyUsageSummary.models summary1) modelName event\<rparr>
              in AList.update monthKey summary2 summaries)"

definition monthlySummaries ::
  "DateUtils \<Rightarrow> ReportOptions \<Rightarrow> TokenUsageEvent list \<Rightarrow> (string \<times> MonthlyUsageSummary) list" where
  "monthlySummaries du options events = fold (monthlyStep du options) events []"

definition monthlyRow ::
  "DateUtils \<Rightarrow> ReportOptions \<Rightarrow> (string \<times> ModelPricing) list \<Rightarrow> MonthlyUsageSummary
     \<Rightarrow> MonthlyReportRow" where
  "monthlyRow du options modelPricing summary =
     \<lparr>inputTokens = inputTokens summary,
      cachedInputTokens = cachedInputTokens summary,
      outputTokens = outputTokens summary,
      reasoningOutputTokens = reasoningOutputTokens summary,
      totalTokens = totalTokens summary,
      MonthlyReportRow.month =
        formatDisplayMonth du (MonthlyUsageSummary.month summary) (locale_opt options)
          (timezone options),
      MonthlyReportRow.costUSD = rowCost modelPricing (MonthlyUsageSummary.models summary),
      MonthlyReportRow.models = rowModels modelPricing (MonthlyUsageSummary.models summary)\<rparr>"

definition buildMonthlyReport ::
  "(string \<Rightarrow> string \<Rightarrow> int) \<Rightarrow> DateUtils \<Rightarrow> ReportOptions \<Rightarrow> TokenUsageEvent list
     \<Rightarrow> error + MonthlyReportRow list" where
  "buildMonthlyReport localeCompare du options events =
     (let summaries = monthlySummaries du options events in
      case resolveModels (pricingSource options)
             (uniqueModels (map (\<lambda>(k, s). MonthlyUsageSummary.models s) summaries)) [] of
        Inl e \<Rightarrow> Inl e
      | Inr modelPricing \<Rightarrow>
          Inr (map (monthlyRow du options modelPricing)
                 (array_sort
                    (\<lambda>a b. localeCompare (MonthlyUsageSummary.month a)
                             (MonthlyUsageSummary.month b))
                    (map snd summaries))))"

subsection \<open>buildSessionReport\<close>

definition createSummary_session :: "string \<Rightarrow> string \<Rightarrow> SessionUsageSummary" where
  "createSummary_session sid initialTimestamp =
     \<lparr>inputTokens = 0, cachedInputTokens = 0, outputTokens = 0,
      reasoningOutputTokens = 0, totalTokens = 0,
      SessionUsageSummary.sessionId = sid,
      SessionUsageSummary.firstTimestamp = initialTimestamp,
      lastTimestamp = initialTimestamp,
      SessionUsageSummary.costUSD = 0,
      SessionUsageSummary.models = []\<rparr>"

text \<open>\<open>event.timestamp > summary.lastTimestamp\<close> compares strings by code units.\<close>

definition sessionStep ::
  "DateUtils \<Rightarrow> ReportOptions \<Rightarrow> TokenUsageEvent
     \<Rightarrow> (string \<times> SessionUsageSummary) list \<Rightarrow> (string \<times> SessionUsageSummary) list" where
  "sessionStep du options event summaries =
     (case TokenUsageEvent.sessionId event of
        None \<Rightarrow> summaries
      | Some rawSessionId \<Rightarrow>
          let sid = trim rawSessionId in
          if sid = [] then summaries
          else
            (case model event of
               None \<Rightarrow> summaries
             | Some rawModelName \<Rightarrow>
                 let modelName = trim rawModelName in
                 if modelName = [] then summaries
                 else
                   let dateKey = toDateKey du (timestamp event) (timezone options) in
                   if \<not> isWithinRange dateKey (since options) (until options) then summaries
                   else
                     let summary = (case map_of summaries sid of
                                      Some s \<Rightarrow> s
                                    | None \<Rightarrow> createSummary_session sid (timestamp event));
                         summary1 = addUsage summary event;
                         summary2 = (if timestamp event > lastTimestamp summary1
                                     then summary1\<lparr>lastTimestamp := timestamp event\<rparr>
                                     else summary1);
                         summary3 = summary2\<lparr>SessionUsageSummary.models :=
                                      addModelUsage (SessionUsageSummary.models summary2)
                                        modelName event\<rparr>
                     in AList.update sid summary3 summaries))"

definition sessionSummaries ::
  "DateUtils \<Rightarrow> ReportOptions \<Rightarrow> TokenUsageEvent list \<Rightarrow> (string \<times> SessionUsageSummary) list" where
  "sessionSummaries du options events = fold (sessionStep du options) events []"

text \<open>\<open>lastIndexOf\<close> gives \<open>-1\<close> when the character does not occur.\<close>

definition lastIndexOf :: "string \<Rightarrow> char \<Rightarrow> int" where
  "lastIndexOf s c =
     (case find (\<lambda>i. s ! i = c) (rev [0..<length s]) of
        None \<Rightarrow> - 1
      | Some i \<Rightarrow> int i)"

definition sessionRow ::
  "(string \<times> ModelPricing) list \<Rightarrow> SessionUsageSummary \<Rightarrow> SessionReportRow" where
  "sessionRow modelPricing summary =
     (let separatorIndex = lastIndexOf (SessionUsageSummary.sessionId summary) CHR ''/'';
          dir = (if separatorIndex \<ge> 0
                 then take (nat separatorIndex) (SessionUsageSummary.sessionId summary)
                 else []);
          file = (if separatorIndex \<ge> 0
                  then drop (nat (separatorIndex + 1)) (SessionUsageSummary.sessionId summary)
                  else SessionUsageSummary.sessionId summary)
      in \<lparr>inputTokens = inputTokens summary,
          cachedInputTokens = cachedInputTokens summary,
          outputTokens = outputTokens summary,
          reasoningOutputTokens = reasoningOutputTokens summary,
          totalTokens = totalTokens summary,
          SessionReportRow.sessionId = SessionUsageSummary.sessionId summary,
          lastActivity = lastTimestamp summary,
          sessionFile = file,
          directory = dir,
          SessionReportRow.costUSD = rowCost modelPricing (SessionUsageSummary.models summary),
          SessionReportRow.models = rowModels modelPricing (SessionUsageSummary.models summary)\<rparr>)"

definition buildSessionReport ::
  "(string \<Rightarrow> string \<Rightarrow> int) \<Rightarrow> DateUtils \<Rightarrow> ReportOptions \<Rightarrow> TokenUsageEvent list
     \<Rightarrow> error + SessionReportRow list" where
  "buildSessionReport localeCompare du options events =
     (let summaries = sessionSummaries du options events in
      if length summaries = 0 then Inr []
      else
        case resolveModels (pricingSource options)
               (uniqueModels (map (\<lambda>(k, s). SessionUsageSummary.models s) summaries)) [] of
          Inl e \<Rightarrow> Inl e
        | Inr modelPricing \<Rightarrow>
            Inr (map (sessionRow modelPricing)
                   (array_sort (\<lambda>a b. localeCompare (lastTimestamp a) (lastTimestamp b))
                      (map snd summaries))))"

section \<open>The common shape of the three accumulations\<close>

text \<open>
  The three loops differ in the grouping key, in the session builder's extra test of
  the session id, and in its tracking of \<open>lastTimestamp\<close>.  For the proofs each kind
  of summary is projected to one shape, on which one loop body simulates all three:
  \<open>track\<close> says whether the last timestamp is kept, and the \<open>accept\<close> functions
  give the group key and the trimmed model name of an event that is not skipped.
\<close>

record gsum =
  gkey :: string
  gdelta :: TokenUsageDelta
  gmodels :: "(string \<times> ModelUsage) list"
  glast :: string

definition delta_of :: "'a TokenUsageDelta_scheme \<Rightarrow> TokenUsageDelta" where
  "delta_of s =
     \<lparr>inputTokens = inputTokens s, cachedInputTokens = cachedInputTokens s,
      outputTokens = outputTokens s, reasoningOutputTokens = reasoningOutputTokens s,
      totalTokens = totalTokens s\<rparr>"

definition gen_daily :: "DailyUsageSummary \<Rightarrow> gsum" where
  "gen_daily s =
     \<lparr>gkey = DailyUsageSummary.date s, gdelta = delta_of s,
      gmodels = DailyUsageSummary.models s, glast = []\<rparr>"

definition gen_monthly :: "MonthlyUsageSummary \<Rightarrow> gsum" where
  "gen_monthly s =
     \<lparr>gkey = MonthlyUsageSummary.month s, gdelta = delta_of s,
      gmodels = MonthlyUsageSummary.models s, glast = []\<rparr>"

definition gen_session :: "SessionUsageSummary \<Rightarrow> gsum" where
  "gen_session s =
     \<lparr>gkey = SessionUsageSummary.sessionId s, gdelta = delta_of s,
      gmodels = SessionUsageSummary.models s, glast = lastTimestamp s\<rparr>"

definition accept_daily ::
  "DateUtils \<Rightarrow> ReportOptions \<Rightarrow> TokenUsageEvent \<Rightarrow> (string \<times> string) option" where
  "accept_daily du options event =
     (case model event of
        None \<Rightarrow> None
      | Some rawModelName \<Rightarrow>
          if trim rawModelName = [] then None
          else if \<not> isWithinRange (toDateKey du (timestamp event) (timezone options))
                      (since options) (until options) then None
          else Some (toDateKey du (timestamp event) (timezone options), trim rawModelName))"

definition accept_monthly ::
  "DateUtils \<Rightarrow> ReportOptions \<Rightarrow> TokenUsageEvent \<Rightarrow> (string \<times> string) option" where
  "accept_monthly du options event =
     (case model event of
        None \<Rightarrow> None
      | Some rawModelName \<Rightarrow>
          if trim rawModelName = [] then None
          else if \<not> isWithinRange (toDateKey du (timestamp event) (timezone options))
                      (since options) (until options) then None
          else Some (toMonthKey du (timestamp event) (timezone options), trim rawModelName))"

definition accept_session ::
  "DateUtils \<Rightarrow> ReportOptions \<Rightarrow> TokenUsageEvent \<Rightarrow> (string \<times> string) option" where
  "accept_session du options event =
     (case (TokenUsageEvent.sessionId event, model event) of
        (Some rawSessionId, Some rawModelName) \<Rightarrow>
          if trim rawSessionId = [] \<or> trim rawModelName = [] then None
          else if \<not> isWithinRange (toDateKey du (timestamp event) (timezone options))
                      (since options) (until options) then None
          else Some (trim rawSessionId, trim rawModelName)
      | _ \<Rightarrow> None)"

definition gstep ::
  "bool \<Rightarrow> (string \<times> string) option \<Rightarrow> TokenUsageEvent
     \<Rightarrow> (string \<times> gsum) list \<Rightarrow> (string \<times> gsum) list" where
  "gstep track acc event G =
     (case acc of
        None \<Rightarrow> G
      | Some (k, modelName) \<Rightarrow>
          let g = (case map_of G k of
                     Some g \<Rightarrow> g
                   | None \<Rightarrow> \<lparr>gkey = k, gdelta = createEmptyUsage, gmodels = [],
                               glast = (if track then timestamp event else [])\<rparr>);
              g1 = g\<lparr>gdelta := addUsage (gdelta g) event\<rparr>;
              g2 = (if track \<and> timestamp event > glast g1
                    then g1\<lparr>glast := timestamp event\<rparr> else g1);
              g3 = g2\<lparr>gmodels := addModelUsage (gmodels g2) modelName event\<rparr>
          in AList.update k g3 G)"

definition gfold ::
  "bool \<Rightarrow> (TokenUsageEvent \<Rightarrow> (string \<times> string) option) \<Rightarrow> TokenUsageEvent list
     \<Rightarrow> (string \<times> gsum) list" where
  "gfold track acc events = fold (\<lambda>e. gstep track (acc e) e) events []"

text \<open>
  A summary seen through its \<open>Map\<close> of models as a mapping: what is left of it when
  the insertion order of the models is forgotten.
\<close>

type_synonym vsum = "string \<times> TokenUsageDelta \<times> (string \<rightharpoonup> ModelUsage) \<times> string"

definition gv :: "gsum \<Rightarrow> vsum" where
  "gv g = (gkey g, gdelta g, map_of (gmodels g), glast g)"

definition mbump :: "ModelUsage option \<Rightarrow> TokenUsageEvent \<Rightarrow> ModelUsage" where
  "mbump uo event =
     (let u1 = addUsage (case uo of Some u \<Rightarrow> u | None \<Rightarrow> emptyModelUsage) event
      in if isFallbackModel event = Some True then u1\<lparr>isFallback := Some True\<rparr> else u1)"

definition vbump ::
  "bool \<Rightarrow> string \<Rightarrow> string \<Rightarrow> TokenUsageEvent \<Rightarrow> vsum option \<Rightarrow> vsum" where
  "vbump track k modelName event vo =
     (case (case vo of
              Some v \<Rightarrow> v
            | None \<Rightarrow> (k, createEmptyUsage, Map.empty,
                        if track then timestamp event else [])) of
        (k', d, M, l) \<Rightarrow>
          (k', addUsage d event, M(modelName \<mapsto> mbump (M modelName) event),
           if track then max l (timestamp event) else l))"

definition astep ::
  "bool \<Rightarrow> (string \<times> string) option \<Rightarrow> TokenUsageEvent
     \<Rightarrow> (string \<rightharpoonup> vsum) \<Rightarrow> (string \<rightharpoonup> vsum)" where
  "astep track acc event V =
     (case acc of
        None \<Rightarrow> V
      | Some (k, modelName) \<Rightarrow> V(k \<mapsto> vbump track k modelName event (V k)))"

definition GV :: "(string \<times> gsum) list \<Rightarrow> (string \<rightharpoonup> vsum)" where
  "GV G = map_option gv \<circ> map_of G"

definition ginv :: "(string \<times> gsum) list \<Rightarrow> bool" where
  "ginv G =
     (distinct (map fst G)
      \<and> (\<forall>(k, g) \<in> set G. gkey g = k \<and> distinct (map fst (gmodels g))))"

definition gviews :: "(string \<times> gsum) list \<Rightarrow> vsum list" where
  "gviews G = map gv (map snd G)"

definition vlast :: "vsum \<Rightarrow> string" where
  "vlast v = (case v of (k, d, M, l) \<Rightarrow> l)"

definition vmodels :: "vsum \<Rightarrow> string set" where
  "vmodels v = (case v of (k, d, M, l) \<Rightarrow> dom M)"

text \<open>The prices the builders hold after asking the pricing source for each model.\<close>

definition pmap :: "(string \<Rightarrow> error + ModelPricing) \<Rightarrow> string set \<Rightarrow> (string \<rightharpoonup> ModelPricing)" where
  "pmap ps N = (\<lambda>n. if n \<in> N then (case ps n of Inr p \<Rightarrow> Some p | Inl e \<Rightarrow> None) else None)"

definition cost_of :: "(string \<rightharpoonup> ModelPricing) \<Rightarrow> (string \<rightharpoonup> ModelUsage) \<Rightarrow> real" where
  "cost_of pm M =
     (\<Sum>n \<in> dom M. case pm n of None \<Rightarrow> 0 | Some p \<Rightarrow> calculateCostUSD (the (M n)) p)"

definition tag_usage :: "(string \<rightharpoonup> ModelPricing) \<Rightarrow> string \<Rightarrow> ModelUsage \<Rightarrow> ModelUsage" where
  "tag_usage pm n u =
     u\<lparr>pricingResolution := map_option ModelPricing.pricingResolution (pm n),
       pricingModel := map_option ModelPricing.pricingModel (pm n)\<rparr>"

text \<open>
  The row made from a summary, seen in the same way: key, last timestamp, totals, cost, and
  the entries of the row's \<open>models\<close> object as a mapping, which never has the key
  \<open>__proto__\<close>.
\<close>

type_synonym rview = "string \<times> string \<times> TokenUsageDelta \<times> real \<times> (string \<rightharpoonup> ModelUsage)"

definition RV :: "(string \<rightharpoonup> ModelPricing) \<Rightarrow> vsum \<Rightarrow> rview" where
  "RV pm v =
     (case v of (k, d, M, l) \<Rightarrow>
        (k, l, d, cost_of pm M,
         (\<lambda>n. if n = ''__proto__'' then None else map_option (tag_usage pm n) (M n))))"

text \<open>
  What a report is when the order of each row's model entries is forgotten: the rows of
  a build that did not fail, and of each row its fields with \<open>models\<close> as a mapping.
\<close>

definition rows_of :: "error + 'a list \<Rightarrow> 'a list option" where
  "rows_of r = (case r of Inl e \<Rightarrow> None | Inr rows \<Rightarrow> Some rows)"

definition dailyRowView ::
  "DailyReportRow \<Rightarrow> string \<times> TokenUsageDelta \<times> real \<times> (string \<rightharpoonup> ModelUsage)" where
  "dailyRowView r =
     (DailyReportRow.date r, delta_of r, DailyReportRow.costUSD r,
      map_of (DailyReportRow.models r))"

definition monthlyRowView ::
  "MonthlyReportRow \<Rightarrow> string \<times> TokenUsageDelta \<times> real \<times> (string \<rightharpoonup> ModelUsage)" where
  "monthlyRowView r =
     (MonthlyReportRow.month r, delta_of r, MonthlyReportRow.costUSD r,
      map_of (MonthlyReportRow.models r))"

definition sessionRowView ::
  "SessionReportRow
     \<Rightarrow> string \<times> string \<times> string \<times> string \<times> TokenUsageDelta \<times> real
         \<times> (string \<rightharpoonup> ModelUsage)" where
  "sessionRowView r =
     (SessionReportRow.sessionId r, lastActivity r, sessionFile r, directory r, delta_of r,
      SessionReportRow.costUSD r, map_of (SessionReportRow.models r))"

definition report_views ::
  "(string \<Rightarrow> string \<Rightarrow> int) \<Rightarrow> (rview \<Rightarrow> 'r) \<Rightarrow> (vsum \<Rightarrow> string)
     \<Rightarrow> (string \<Rightarrow> error + ModelPricing) \<Rightarrow> vsum list \<Rightarrow> 'r list option" where
  "report_views lc P h ps L =
     (let N = \<Union> (vmodels ` set L) in
      if \<exists>n \<in> N. isl (ps n) then None
      else Some (map (\<lambda>v. P (RV (pmap ps N) v)) (array_sort (\<lambda>a b. lc (h a) (h b)) L)))"

definition daily_proj ::
  "DateUtils \<Rightarrow> ReportOptions \<Rightarrow> rview
     \<Rightarrow> string \<times> TokenUsageDelta \<times> real \<times> (string \<rightharpoonup> ModelUsage)" where
  "daily_proj du options v =
     (case v of (k, l, d, c, M) \<Rightarrow>
        (formatDisplayDate du k (locale_opt options) (timezone options), d, c, M))"

definition monthly_proj ::
  "DateUtils \<Rightarrow> ReportOptions \<Rightarrow> rview
     \<Rightarrow> string \<times> TokenUsageDelta \<times> real \<times> (string \<rightharpoonup> ModelUsage)" where
  "monthly_proj du options v =
     (case v of (k, l, d, c, M) \<Rightarrow>
        (formatDisplayMonth du k (locale_opt options) (timezone options), d, c, M))"

definition session_proj ::
  "rview \<Rightarrow> string \<times> string \<times> string \<times> string \<times> TokenUsageDelta \<times> real
     \<times> (string \<rightharpoonup> ModelUsage)" where
  "session_proj v =
     (case v of (k, l, d, c, M) \<Rightarrow>
        (k, l,
         (if lastIndexOf k CHR ''/'' \<ge> 0 then drop (nat (lastIndexOf k CHR ''/'' + 1)) k else k),
         (if lastIndexOf k CHR ''/'' \<ge> 0 then take (nat (lastIndexOf k CHR ''/'')) k else []),
         d, c, M))"

text \<open>
  The group keys of the events that a loop accumulates, in input order, and the sum of the
  usage of a list of events.
\<close>

definition acceptedKeys ::
  "(TokenUsageEvent \<Rightarrow> (string \<times> string) option) \<Rightarrow> TokenUsageEvent list \<Rightarrow> string list" where
  "acceptedKeys acc es = map fst (List.map_filter acc es)"

definition sumUsage :: "'a TokenUsageDelta_scheme list \<Rightarrow> TokenUsageDelta" where
  "sumUsage es =
     \<lparr>inputTokens = (\<Sum>e \<leftarrow> es. inputTokens e),
      cachedInputTokens = (\<Sum>e \<leftarrow> es. cachedInputTokens e),
      outputTokens = (\<Sum>e \<leftarrow> es. outputTokens e),
      reasoningOutputTokens = (\<Sum>e \<leftarrow> es. reasoningOutputTokens e),
      totalTokens = (\<Sum>e \<leftarrow> es. totalTokens e)\<rparr>"

text \<open>The five totals of a summary or row against the sums over its per-model entries.\<close>

definition totals_match ::
  "'a TokenUsageDelta_scheme \<Rightarrow> (string \<times> ModelUsage) list \<Rightarrow> bool" where
  "totals_match t ms \<longleftrightarrow>
     inputTokens t = (\<Sum>(n, u) \<leftarrow> ms. inputTokens u)
     \<and> cachedInputTokens t = (\<Sum>(n, u) \<leftarrow> ms. cachedInputTokens u)
     \<and> outputTokens t = (\<Sum>(n, u) \<leftarrow> ms. outputTokens u)
     \<and> reasoningOutputTokens t = (\<Sum>(n, u) \<leftarrow> ms. reasoningOutputTokens u)
     \<and> totalTokens t = (\<Sum>(n, u) \<leftarrow> ms. totalTokens u)"

section \<open>Example inputs\<close>

text \<open>
  Date helpers for timestamps in UTC: the day key is the first ten characters of the
  ISO timestamp, the month key the first seven, and keys are displayed as they are.
\<close>

definition utcDateUtils :: DateUtils where
  "utcDateUtils =
     \<lparr>toDateKey = (\<lambda>ts tz. take 10 ts), toMonthKey = (\<lambda>ts tz. take 7 ts),
      formatDisplayDate = (\<lambda>k l tz. k), formatDisplayMonth = (\<lambda>k l tz. k)\<rparr>"

text \<open>
  A comparison function for the examples: the code-unit order.  The keys of the examples
  are ISO timestamps in UTC and their day and month prefixes, all of one format.
\<close>

definition codeUnitCompare :: "string \<Rightarrow> string \<Rightarrow> int" where
  "codeUnitCompare a b = (if a < b then - 1 else if b < a then 1 else 0)"

text \<open>The stub pricing source of the builders' tests.\<close>

definition stubPricingSource :: "string \<Rightarrow> error + ModelPricing" where
  "stubPricingSource m =
     (if m = ''gpt-5''
      then Inr \<lparr>inputCostPerMToken = 5 / 4, cachedInputCostPerMToken = 1 / 8,
                outputCostPerMToken = 10, pricingResolution = Direct,
                pricingModel = ''gpt-5''\<rparr>
      else if m = ''gpt-5-mini''
      then Inr \<lparr>inputCostPerMToken = 3 / 5, cachedInputCostPerMToken = 3 / 50,
                outputCostPerMToken = 2, pricingResolution = Direct,
                pricingModel = ''gpt-5-mini''\<rparr>
      else Inl (Error (''Missing pricing for '' @ m)))"

definition stubOptions :: "string option \<Rightarrow> string option \<Rightarrow> ReportOptions" where
  "stubOptions s u =
     \<lparr>timezone = None, locale_opt = None, since = s, until = u,
      pricingSource = stubPricingSource\<rparr>"

definition usageEvent ::
  "string \<Rightarrow> string \<Rightarrow> string \<Rightarrow> int \<Rightarrow> int \<Rightarrow> int \<Rightarrow> int \<Rightarrow> int
     \<Rightarrow> TokenUsageEvent" where
  "usageEvent sid ts m i c out r tot =
     \<lparr>inputTokens = i, cachedInputTokens = c, outputTokens = out,
      reasoningOutputTokens = r, totalTokens = tot,
      timestamp = ts, sessionId = Some sid, model = Some m, isFallbackModel = None\<rparr>"

definition event1 :: TokenUsageEvent where
  "event1 = usageEvent ''dir/a/session-1'' ''2025-09-11T03:00:00.000Z'' ''gpt-5'' 1000 200 500 0 1500"

definition event2 :: TokenUsageEvent where
  "event2 = usageEvent ''dir/a/session-1'' ''2025-09-11T05:00:00.000Z'' ''gpt-5-mini'' 400 100 200 50 750"

definition event3 :: TokenUsageEvent where
  "event3 = usageEvent ''session-2'' ''2025-09-12T01:00:00.000Z'' ''gpt-5'' 2000 0 800 0 2800"

definition event4 :: TokenUsageEvent where
  "event4 = usageEvent ''session-3'' ''2025-09-12T01:00:00.000Z'' ''gpt-5'' 10 0 20 0 30"


text \<open>A pricing source that prices every model alike, and an event of a model named \<open>__proto__\<close>.\<close>

definition flatPricingSource :: "string \<Rightarrow> error + ModelPricing" where
  "flatPricingSource m =
     Inr \<lparr>inputCostPerMToken = 1, cachedInputCostPerMToken = 1 / 2,
          outputCostPerMToken = 2, pricingResolution = Direct, pricingModel = m\<rparr>"

definition flatOptions :: ReportOptions where
  "flatOptions =
     \<lparr>timezone = None, locale_opt = None, since = None, until = None,
      pricingSource = flatPricingSource\<rparr>"

definition eventProto :: TokenUsageEvent where
  "eventProto = usageEvent ''session-4'' ''2025-09-13T01:00:00.000Z'' ''__proto__'' 5 0 7 0 12"

section \<open>Properties of pricing resolution\<close>

lemma includes_str_sublist: "includes_str s t \<longleftrightarrow> sublist t s"
  by (induction s) (simp_all add: sublist_Cons_right)

lemma sublist_join: "k \<in> set ks \<Longrightarrow> sublist k (join sep ks)"
proof (induction sep ks rule: join.induct)
  case (1 sep)
  then show ?case by simp
next
  case (2 sep x)
  then show ?case by simp
next
  case (3 sep x y ys)
  show ?case
  proof (cases "k = x")
    case True
    then show ?thesis by simp
  next
    case False
    with 3 have "sublist k (join sep (y # ys))" by simp
    then obtain ps ss where "join sep (y # ys) = ps @ k @ ss"
      by (auto simp: sublist_def)
    then have "join sep (x # y # ys) = (x @ sep @ ps) @ k @ ss" by simp
    then show ?thesis unfolding sublist_def by blast
  qed
qed

lemma collectMatches_acc:
  "lower = toLowerCase m \<Longrightarrow>
   collectMatches lower pm acc = acc @ filter (\<lambda>(k, p). fuzzy_match m k) pm"
  by (induction lower pm acc rule: collectMatches.induct)
     (simp_all add: fuzzy_match_def Let_def)

lemma collectMatches_filter:
  "collectMatches (toLowerCase m) pm [] = filter (\<lambda>(k, p). fuzzy_match m k) pm"
  by (simp add: collectMatches_acc)

lemma retag: "\<lparr>key = key r, pricing = pricing r, resolution = t\<rparr> = r\<lparr>resolution := t\<rparr>"
  by (cases r) simp

lemma firstCandidate_find:
  "firstCandidate pm cs =
     (case find (\<lambda>c. c \<in> set (map fst pm)) cs of
        None \<Rightarrow> None
      | Some c \<Rightarrow> map_option (\<lambda>p. \<lparr>key = c, pricing = p, resolution = Direct\<rparr>) (map_of pm c))"
proof (induction cs)
  case Nil
  then show ?case by simp
next
  case (Cons c cs)
  show ?case
  proof (cases "map_of pm c")
    case None
    then have "c \<notin> set (map fst pm)" by (simp add: map_of_eq_None_iff)
    with None Cons show ?thesis by simp
  next
    case (Some p)
    then have "c \<in> set (map fst pm)" by (metis map_of_eq_None_iff option.distinct(1) set_map)
    with Some show ?thesis by (simp add: createResolvedPricing_def)
  qed
qed

lemma findDirectPricing_spec:
  "spec_direct pm m = (case findDirectPricing pm m of None \<Rightarrow> NoMatch | Some r \<Rightarrow> Match r)"
  unfolding spec_direct_def findDirectPricing_def firstCandidate_find CODEX_PROVIDER_PREFIXES_def
  by (simp split: option.splits)

lemma findAliasPricing_spec:
  "spec_alias pm m = (case findAliasPricing pm m of None \<Rightarrow> NoMatch | Some r \<Rightarrow> Match r)"
  by (auto simp: spec_alias_def findAliasPricing_def findDirectPricing_spec
      createResolvedPricing_def retag split: option.splits)

lemma findFuzzyPricing_spec:
  "spec_fuzzy pm m =
     (case findFuzzyPricing pm m of Inl e \<Rightarrow> Raise e | Inr None \<Rightarrow> NoMatch | Inr (Some r) \<Rightarrow> Match r)"
  by (auto simp: spec_fuzzy_def findFuzzyPricing_def collectMatches_filter Let_def
      createResolvedPricing_def split: list.splits)

lemma getPricing_tiers:
  "snd (getPricing this (Inr pm) m) =
     (case first_success (spec_tiers this pm m) of
        NoMatch \<Rightarrow> Inl (Error (notFoundMessage (allowFuzzyPricing this) m))
      | Raise e \<Rightarrow> Inl e
      | Match r \<Rightarrow> normalizeModelPricing m r)"
  by (auto simp: getPricing_def spec_tiers_def spec_fallback_def findDirectPricing_spec
      findAliasPricing_spec findFuzzyPricing_spec createResolvedPricing_def Let_def retag
      split: option.splits sum.splits)

text \<open>
  C1.  \<open>getPricing\<close> tries the tiers direct, alias, fuzzy (only when enabled) and
  configured fallback in this order, and the first tier that does not come back empty
  decides the result; the direct tier looks the name up verbatim and then behind
  \<open>openai/\<close>, \<open>azure/\<close> and \<open>openrouter/openai/\<close>, in this order.  In particular a
  record found by the direct tier is the one priced, tagged \<open>direct\<close>, whatever the
  alias table, the fuzzy switch and the fallback are; so is a name that is itself a key
  of the price list.
\<close>

theorem getPricing_tier_order:
  "snd (getPricing this (Inr pm) m) =
     (case first_success (spec_tiers this pm m) of
        NoMatch \<Rightarrow> Inl (Error (notFoundMessage (allowFuzzyPricing this) m))
      | Raise e \<Rightarrow> Inl e
      | Match r \<Rightarrow> normalizeModelPricing m r)
   \<and> (\<forall>r. findDirectPricing pm m = Some r \<longrightarrow>
          snd (getPricing this (Inr pm) m) = normalizeModelPricing m r
          \<and> resolution r = Direct)
   \<and> (\<forall>p. map_of pm m = Some p \<longrightarrow>
          snd (getPricing this (Inr pm) m) =
            normalizeModelPricing m \<lparr>key = m, pricing = p, resolution = Direct\<rparr>)"
proof (intro conjI allI impI)
  show "snd (getPricing this (Inr pm) m) =
     (case first_success (spec_tiers this pm m) of
        NoMatch \<Rightarrow> Inl (Error (notFoundMessage (allowFuzzyPricing this) m))
      | Raise e \<Rightarrow> Inl e
      | Match r \<Rightarrow> normalizeModelPricing m r)"
    by (rule getPricing_tiers)
next
  fix r assume r: "findDirectPricing pm m = Some r"
  then show "snd (getPricing this (Inr pm) m) = normalizeModelPricing m r"
    by (simp add: getPricing_def)
  from r have "spec_direct pm m = Match r" by (simp add: findDirectPricing_spec)
  then show "resolution r = Direct"
    by (auto simp: spec_direct_def split: option.splits)
next
  fix p assume p: "map_of pm m = Some p"
  then have "findDirectPricing pm m = Some \<lparr>key = m, pricing = p, resolution = Direct\<rparr>"
    by (simp add: findDirectPricing_def createResolvedPricing_def)
  then show "snd (getPricing this (Inr pm) m) =
            normalizeModelPricing m \<lparr>key = m, pricing = p, resolution = Direct\<rparr>"
    by (simp add: getPricing_def split: option.splits)
qed

theorem getPricing_tier_order_witness:
  "map_of [(''gpt-5'', priceA), (''gpt-5-codex'', priceB)] ''gpt-5-codex'' = Some priceB
   \<and> findAliasPricing [(''gpt-5'', priceA), (''gpt-5-codex'', priceB)] ''gpt-5-codex''
       = Some \<lparr>key = ''gpt-5'', pricing = priceA, resolution = Alias\<rparr>
   \<and> snd (getPricing \<lparr>allowFuzzyPricing = True, unknownModelFallback = Some ''gpt-5''\<rparr>
            (Inr [(''gpt-5'', priceA), (''gpt-5-codex'', priceB)]) ''gpt-5-codex'')
       = Inr \<lparr>inputCostPerMToken = 2, cachedInputCostPerMToken = 1 / 2,
              outputCostPerMToken = 9, pricingResolution = Direct,
              pricingModel = ''gpt-5-codex''\<rparr>"
proof -
  have h: "map_of [(''gpt-5'', priceA), (''gpt-5-codex'', priceB)] ''gpt-5-codex'' = Some priceB"
    by simp
  have a: "findAliasPricing [(''gpt-5'', priceA), (''gpt-5-codex'', priceB)] ''gpt-5-codex''
       = Some \<lparr>key = ''gpt-5'', pricing = priceA, resolution = Alias\<rparr>"
    by (simp add: findAliasPricing_def findDirectPricing_def CODEX_MODEL_ALIASES_MAP_def
        createResolvedPricing_def)
  have n: "normalizeModelPricing ''gpt-5-codex''
             \<lparr>key = ''gpt-5-codex'', pricing = priceB, resolution = Direct\<rparr>
       = Inr \<lparr>inputCostPerMToken = 2, cachedInputCostPerMToken = 1 / 2,
              outputCostPerMToken = 9, pricingResolution = Direct,
              pricingModel = ''gpt-5-codex''\<rparr>"
    by (simp add: normalizeModelPricing_def toPerMillion_def MILLION_def priceB_def)
  have g: "snd (getPricing \<lparr>allowFuzzyPricing = True, unknownModelFallback = Some ''gpt-5''\<rparr>
            (Inr [(''gpt-5'', priceA), (''gpt-5-codex'', priceB)]) ''gpt-5-codex'')
       = normalizeModelPricing ''gpt-5-codex''
             \<lparr>key = ''gpt-5-codex'', pricing = priceB, resolution = Direct\<rparr>"
    using getPricing_tier_order
      [of "\<lparr>allowFuzzyPricing = True, unknownModelFallback = Some ''gpt-5''\<rparr>"
          "[(''gpt-5'', priceA), (''gpt-5-codex'', priceB)]" "''gpt-5-codex''"] h
    by blast
  show ?thesis
    using h a g n by (intro conjI) (rule h, rule a, simp only:)
qed

lemma ambiguousMessage_names:
  assumes "k \<in> set (map fst ms)"
  shows "includes_str (ambiguousMessage m ms) k"
proof -
  from assms have "sublist k (join '', '' (map fst ms))" by (rule sublist_join)
  then obtain ps ss where j: "join '', '' (map fst ms) = ps @ k @ ss"
    by (auto simp: sublist_def)
  have "ambiguousMessage m ms =
          (''Ambiguous fuzzy pricing resolution for model '' @ m @ ''; ''
             @ show_nat (length ms) @ '' candidates found: '' @ ps) @ k @ ss"
    unfolding ambiguousMessage_def j by simp
  then have "sublist k (ambiguousMessage m ms)"
    unfolding sublist_def by blast
  then show ?thesis by (simp add: includes_str_sublist)
qed

lemma findFuzzyPricing_filter:
  "findFuzzyPricing pm m =
     (case filter (\<lambda>(k, p). fuzzy_match m k) pm of
        [] \<Rightarrow> Inr None
      | [(k, p)] \<Rightarrow> Inr (Some \<lparr>key = k, pricing = p, resolution = Fuzzy\<rparr>)
      | ms \<Rightarrow> Inl (Error (ambiguousMessage m ms)))"
  by (auto simp: findFuzzyPricing_def collectMatches_filter Let_def createResolvedPricing_def
      split: list.splits)

text \<open>
  C3.  Fuzzy resolution collects, in price-list order, every key that contains the model
  name or is contained in it, both lower-cased.  With no such key it returns nothing, and
  \<open>getPricing\<close> goes on exactly as with fuzzy matching switched off (only the wording of
  the final not-found error differs); with exactly one it returns that entry tagged
  \<open>fuzzy\<close>; with two or more it throws the ambiguity error, whose message contains every
  candidate key.
\<close>

theorem findFuzzyPricing_matches:
  "(filter (\<lambda>(k, p). fuzzy_match m k) pm = [] \<longrightarrow> findFuzzyPricing pm m = Inr None)
   \<and> (\<forall>k p. filter (\<lambda>(k, p). fuzzy_match m k) pm = [(k, p)] \<longrightarrow>
          findFuzzyPricing pm m = Inr (Some \<lparr>key = k, pricing = p, resolution = Fuzzy\<rparr>))
   \<and> (2 \<le> length (filter (\<lambda>(k, p). fuzzy_match m k) pm) \<longrightarrow>
          findFuzzyPricing pm m =
            Inl (Error (ambiguousMessage m (filter (\<lambda>(k, p). fuzzy_match m k) pm)))
          \<and> (\<forall>k \<in> set (map fst (filter (\<lambda>(k, p). fuzzy_match m k) pm)).
                includes_str
                  (ambiguousMessage m (filter (\<lambda>(k, p). fuzzy_match m k) pm)) k))
   \<and> (filter (\<lambda>(k, p). fuzzy_match m k) pm = [] \<longrightarrow>
          getPricing \<lparr>allowFuzzyPricing = True, unknownModelFallback = f\<rparr> (Inr pm) m =
            (if (case f of None \<Rightarrow> True | Some fb \<Rightarrow> trim fb = [])
                  \<and> findDirectPricing pm m = None \<and> findAliasPricing pm m = None
             then ([], Inl (Error (notFoundMessage True m)))
             else getPricing \<lparr>allowFuzzyPricing = False, unknownModelFallback = f\<rparr>
                    (Inr pm) m))"
proof (intro conjI allI impI ballI)
  assume "filter (\<lambda>(k, p). fuzzy_match m k) pm = []"
  then show "findFuzzyPricing pm m = Inr None"
    by (simp add: findFuzzyPricing_filter)
next
  fix k p assume "filter (\<lambda>(k, p). fuzzy_match m k) pm = [(k, p)]"
  then show "findFuzzyPricing pm m = Inr (Some \<lparr>key = k, pricing = p, resolution = Fuzzy\<rparr>)"
    by (simp add: findFuzzyPricing_filter)
next
  assume "2 \<le> length (filter (\<lambda>(k, p). fuzzy_match m k) pm)"
  then obtain a b rest where "filter (\<lambda>(k, p). fuzzy_match m k) pm = a # b # rest"
    by (auto simp: numeral_2_eq_2 Suc_le_length_iff)
  then show "findFuzzyPricing pm m =
            Inl (Error (ambiguousMessage m (filter (\<lambda>(k, p). fuzzy_match m k) pm)))"
    by (simp add: findFuzzyPricing_filter split: prod.splits)
next
  fix k assume "k \<in> set (map fst (filter (\<lambda>(k, p). fuzzy_match m k) pm))"
  then show "includes_str (ambiguousMessage m (filter (\<lambda>(k, p). fuzzy_match m k) pm)) k"
    by (rule ambiguousMessage_names)
next
  assume "filter (\<lambda>(k, p). fuzzy_match m k) pm = []"
  then have "findFuzzyPricing pm m = Inr None"
    by (simp add: findFuzzyPricing_filter)
  then show "getPricing \<lparr>allowFuzzyPricing = True, unknownModelFallback = f\<rparr> (Inr pm) m =
            (if (case f of None \<Rightarrow> True | Some fb \<Rightarrow> trim fb = [])
                  \<and> findDirectPricing pm m = None \<and> findAliasPricing pm m = None
             then ([], Inl (Error (notFoundMessage True m)))
             else getPricing \<lparr>allowFuzzyPricing = False, unknownModelFallback = f\<rparr>
                    (Inr pm) m)"
    by (auto simp: getPricing_def Let_def split: option.splits)
qed


theorem findFuzzyPricing_matches_witness:
  "findFuzzyPricing [(''gpt-5'', priceA), (''o3'', priceB), (''gpt-5-mini'', priceB)] ''GPT-5''
       = Inl (Error ''Ambiguous fuzzy pricing resolution for model GPT-5; 2 candidates found: gpt-5, gpt-5-mini'')
   \<and> includes_str ''Ambiguous fuzzy pricing resolution for model GPT-5; 2 candidates found: gpt-5, gpt-5-mini''
         ''gpt-5-mini''
   \<and> findFuzzyPricing [(''gpt-5'', priceA), (''o3'', priceB), (''gpt-5-mini'', priceB)] ''O3-pro''
       = Inr (Some \<lparr>key = ''o3'', pricing = priceB, resolution = Fuzzy\<rparr>)
   \<and> findFuzzyPricing [(''gpt-5'', priceA), (''o3'', priceB), (''gpt-5-mini'', priceB)] ''claude''
       = Inr None"
proof -
  let ?pm = "[(''gpt-5'', priceA), (''o3'', priceB), (''gpt-5-mini'', priceB)]"
  have f1: "fuzzy_match ''GPT-5'' ''gpt-5''" by code_simp
  have f2: "\<not> fuzzy_match ''GPT-5'' ''o3''" by code_simp
  have f3: "fuzzy_match ''GPT-5'' ''gpt-5-mini''" by code_simp
  have flt: "filter (\<lambda>(k, p). fuzzy_match ''GPT-5'' k) ?pm
             = [(''gpt-5'', priceA), (''gpt-5-mini'', priceB)]"
    by (simp add: f1 f2 f3)
  have two: "show_nat (Suc (Suc 0)) = ''2''" by code_simp
  have msg: "ambiguousMessage ''GPT-5'' [(''gpt-5'', priceA), (''gpt-5-mini'', priceB)]
             = ''Ambiguous fuzzy pricing resolution for model GPT-5; 2 candidates found: gpt-5, gpt-5-mini''"
    by (simp add: ambiguousMessage_def two)
  have len: "2 \<le> length (filter (\<lambda>(k, p). fuzzy_match ''GPT-5'' k) ?pm)"
    unfolding flt by simp
  from findFuzzyPricing_matches[of "''GPT-5''" ?pm] len
  have many: "findFuzzyPricing ?pm ''GPT-5''
          = Inl (Error (ambiguousMessage ''GPT-5'' [(''gpt-5'', priceA), (''gpt-5-mini'', priceB)]))
        \<and> includes_str (ambiguousMessage ''GPT-5'' [(''gpt-5'', priceA), (''gpt-5-mini'', priceB)])
              ''gpt-5-mini''"
    unfolding flt by simp
  have g1: "\<not> fuzzy_match ''O3-pro'' ''gpt-5''" by code_simp
  have g2: "fuzzy_match ''O3-pro'' ''o3''" by code_simp
  have g3: "\<not> fuzzy_match ''O3-pro'' ''gpt-5-mini''" by code_simp
  have one_flt: "filter (\<lambda>(k, p). fuzzy_match ''O3-pro'' k) ?pm = [(''o3'', priceB)]"
    by (simp add: g1 g2 g3)
  from findFuzzyPricing_matches[of "''O3-pro''" ?pm, THEN conjunct2, THEN conjunct1,
      rule_format, OF one_flt]
  have one: "findFuzzyPricing ?pm ''O3-pro''
       = Inr (Some \<lparr>key = ''o3'', pricing = priceB, resolution = Fuzzy\<rparr>)" .
  have h1: "\<not> fuzzy_match ''claude'' ''gpt-5''" by code_simp
  have h2: "\<not> fuzzy_match ''claude'' ''o3''" by code_simp
  have h3: "\<not> fuzzy_match ''claude'' ''gpt-5-mini''" by code_simp
  have none_flt: "filter (\<lambda>(k, p). fuzzy_match ''claude'' k) ?pm = []"
    by (simp add: h1 h2 h3)
  from findFuzzyPricing_matches[of "''claude''" ?pm, THEN conjunct1, rule_format, OF none_flt]
  have none: "findFuzzyPricing ?pm ''claude'' = Inr None" .
  from many one none show ?thesis unfolding msg by (intro conjI) simp_all
qed

lemma includes_str_app: "includes_str (a @ k @ b) k"
  by (simp add: includes_str_sublist)

text \<open>
  C7.  Normalisation multiplies the input, cached-input and output cost per token by
  1,000,000; the cached-input cost is the input cost when the record has no cache-read
  cost; a record without input or output cost makes \<open>normalizeModelPricing\<close>, and with it
  \<open>getPricing\<close> whenever the tiers resolve to that record, throw the error that names the
  requested model.
\<close>

theorem normalizeModelPricing_per_million:
  "toPerMillion (Some v) fb = Inr (v * 1000000)
   \<and> (\<forall>i out. input_cost_per_token (pricing r) = Some i
          \<and> output_cost_per_token (pricing r) = Some out \<longrightarrow>
        normalizeModelPricing m r =
          Inr \<lparr>inputCostPerMToken = i * 1000000,
               cachedInputCostPerMToken =
                 (case cache_read_input_token_cost (pricing r) of
                    Some c \<Rightarrow> c | None \<Rightarrow> i) * 1000000,
               outputCostPerMToken = out * 1000000,
               pricingResolution = resolution r,
               pricingModel = key r\<rparr>)
   \<and> (input_cost_per_token (pricing r) = None \<or> output_cost_per_token (pricing r) = None \<longrightarrow>
        normalizeModelPricing m r = Inl (Error (incompleteMessage m))
        \<and> includes_str (incompleteMessage m) m
        \<and> (first_success (spec_tiers this pm m) = Match r \<longrightarrow>
             snd (getPricing this (Inr pm) m) = Inl (Error (incompleteMessage m))))"
proof (intro conjI allI impI)
  show "toPerMillion (Some v) fb = Inr (v * 1000000)"
    by (simp add: toPerMillion_def MILLION_def)
next
  fix i out
  assume "input_cost_per_token (pricing r) = Some i \<and> output_cost_per_token (pricing r) = Some out"
  then show "normalizeModelPricing m r =
          Inr \<lparr>inputCostPerMToken = i * 1000000,
               cachedInputCostPerMToken =
                 (case cache_read_input_token_cost (pricing r) of
                    Some c \<Rightarrow> c | None \<Rightarrow> i) * 1000000,
               outputCostPerMToken = out * 1000000,
               pricingResolution = resolution r,
               pricingModel = key r\<rparr>"
    by (simp add: normalizeModelPricing_def toPerMillion_def MILLION_def split: option.splits)
next
  assume a: "input_cost_per_token (pricing r) = None \<or> output_cost_per_token (pricing r) = None"
  then show n: "normalizeModelPricing m r = Inl (Error (incompleteMessage m))"
    by (auto simp: normalizeModelPricing_def split: option.splits)
  show "includes_str (incompleteMessage m) m"
    unfolding incompleteMessage_def by (rule includes_str_app)
  assume "first_success (spec_tiers this pm m) = Match r"
  then show "snd (getPricing this (Inr pm) m) = Inl (Error (incompleteMessage m))"
    by (simp add: getPricing_tiers n)
qed

theorem normalizeModelPricing_per_million_witness:
  "normalizeModelPricing ''gpt-5'' \<lparr>key = ''openai/gpt-5'', pricing = priceA, resolution = Direct\<rparr>
     = Inr \<lparr>inputCostPerMToken = 1, cachedInputCostPerMToken = 1, outputCostPerMToken = 8,
            pricingResolution = Direct, pricingModel = ''openai/gpt-5''\<rparr>
   \<and> normalizeModelPricing ''gpt-5.3-codex''
        \<lparr>key = ''gpt-5.3-codex'', pricing = priceNoInput, resolution = Direct\<rparr>
     = Inl (Error ''Pricing for model gpt-5.3-codex is incomplete: input_cost_per_token and output_cost_per_token are required'')"
proof -
  have a: "input_cost_per_token (pricing \<lparr>key = ''openai/gpt-5'', pricing = priceA, resolution = Direct\<rparr>) = Some (1 / 1000000)
        \<and> output_cost_per_token (pricing \<lparr>key = ''openai/gpt-5'', pricing = priceA, resolution = Direct\<rparr>) = Some (8 / 1000000)"
    by (simp add: priceA_def)
  have b: "input_cost_per_token (pricing \<lparr>key = ''gpt-5.3-codex'', pricing = priceNoInput, resolution = Direct\<rparr>) = None
         \<or> output_cost_per_token (pricing \<lparr>key = ''gpt-5.3-codex'', pricing = priceNoInput, resolution = Direct\<rparr>) = None"
    by (simp add: priceNoInput_def)
  have c: "cache_read_input_token_cost (pricing \<lparr>key = ''openai/gpt-5'', pricing = priceA, resolution = Direct\<rparr>) = None"
    by (simp add: priceA_def)
  from normalizeModelPricing_per_million
         [where r = "\<lparr>key = ''openai/gpt-5'', pricing = priceA, resolution = Direct\<rparr>"
            and m = "''gpt-5''", THEN conjunct2, THEN conjunct1, rule_format, OF a]
  have 1: "normalizeModelPricing ''gpt-5'' \<lparr>key = ''openai/gpt-5'', pricing = priceA, resolution = Direct\<rparr>
     = Inr \<lparr>inputCostPerMToken = 1, cachedInputCostPerMToken = 1, outputCostPerMToken = 8,
            pricingResolution = Direct, pricingModel = ''openai/gpt-5''\<rparr>"
    unfolding c by simp
  from normalizeModelPricing_per_million
         [where r = "\<lparr>key = ''gpt-5.3-codex'', pricing = priceNoInput, resolution = Direct\<rparr>"
            and m = "''gpt-5.3-codex''", THEN conjunct2, THEN conjunct2, rule_format, OF b]
  have 2: "normalizeModelPricing ''gpt-5.3-codex''
        \<lparr>key = ''gpt-5.3-codex'', pricing = priceNoInput, resolution = Direct\<rparr>
     = Inl (Error ''Pricing for model gpt-5.3-codex is incomplete: input_cost_per_token and output_cost_per_token are required'')"
    by (simp add: incompleteMessage_def)
  from 1 2 show ?thesis by blast
qed

text \<open>
  C6 (amended).  When the direct and alias tiers find nothing for the model, fuzzy matching
  is off or finds no candidate, and a fallback name is configured that is not blank after
  trimming, \<open>getPricing\<close> looks the trimmed fallback name up with the direct tier and then
  the alias tier, and with nothing else: a hit is returned tagged \<open>fallback\<close> (after
  normalisation) together with one warning line, and a miss throws the error that names
  the trimmed fallback.  A fallback name that is blank after trimming counts as no
  fallback: the call ends in the not-found error.
\<close>

theorem getPricing_fallback:
  "findDirectPricing pm m = None \<Longrightarrow> findAliasPricing pm m = None \<Longrightarrow>
   (allowFuzzyPricing this \<longrightarrow> findFuzzyPricing pm m = Inr None) \<Longrightarrow>
   unknownModelFallback this = Some fb \<Longrightarrow>
   (trim fb \<noteq> [] \<longrightarrow>
      getPricing this (Inr pm) m =
        (case (case findDirectPricing pm (trim fb) of
                 Some r \<Rightarrow> Some r
               | None \<Rightarrow> findAliasPricing pm (trim fb)) of
           None \<Rightarrow> ([], Inl (Error (fallbackFailedMessage (trim fb) m)))
         | Some r \<Rightarrow>
             ([fallbackWarning m (trim fb)],
              normalizeModelPricing m (r\<lparr>resolution := Fallback\<rparr>)))
      \<and> includes_str (fallbackFailedMessage (trim fb) m) (trim fb))
   \<and> (trim fb = [] \<longrightarrow>
        getPricing this (Inr pm) m =
          ([], Inl (Error (notFoundMessage (allowFuzzyPricing this) m))))"
proof -
  assume d: "findDirectPricing pm m = None" and a: "findAliasPricing pm m = None"
    and f: "allowFuzzyPricing this \<longrightarrow> findFuzzyPricing pm m = Inr None"
    and u: "unknownModelFallback this = Some fb"
  have inc: "includes_str (fallbackFailedMessage (trim fb) m) (trim fb)"
    unfolding fallbackFailedMessage_def by (rule includes_str_app)
  show ?thesis
  proof (cases "allowFuzzyPricing this")
    case True
    with f have "findFuzzyPricing pm m = Inr None" by simp
    with d a u True inc show ?thesis
      by (simp add: getPricing_def createResolvedPricing_def retag split: option.splits)
  next
    case False
    with d a u inc show ?thesis
      by (simp add: getPricing_def createResolvedPricing_def retag split: option.splits)
  qed
qed

theorem getPricing_fallback_witness:
  "getPricing \<lparr>allowFuzzyPricing = False, unknownModelFallback = Some '' gpt-5.2-codex ''\<rparr>
     (Inr [(''gpt-5.2-codex'', priceB)]) ''gpt-5.3-codex''
   = ([''Using fallback model pricing: gpt-5.3-codex -> gpt-5.2-codex''],
      Inr \<lparr>inputCostPerMToken = 2, cachedInputCostPerMToken = 1 / 2, outputCostPerMToken = 9,
            pricingResolution = Fallback, pricingModel = ''gpt-5.2-codex''\<rparr>)"
proof -
  have t: "trim '' gpt-5.2-codex '' = ''gpt-5.2-codex''"
    by (simp add: trim_def is_space_def)
  have d: "findDirectPricing [(''gpt-5.2-codex'', priceB)] ''gpt-5.3-codex'' = None"
    by (simp add: findDirectPricing_def CODEX_PROVIDER_PREFIXES_def)
  have a: "findAliasPricing [(''gpt-5.2-codex'', priceB)] ''gpt-5.3-codex'' = None"
    by (simp add: findAliasPricing_def CODEX_MODEL_ALIASES_MAP_def)
  have fd: "findDirectPricing [(''gpt-5.2-codex'', priceB)] ''gpt-5.2-codex''
             = Some \<lparr>key = ''gpt-5.2-codex'', pricing = priceB, resolution = Direct\<rparr>"
    by (simp add: findDirectPricing_def createResolvedPricing_def)
  have n: "normalizeModelPricing ''gpt-5.3-codex''
             \<lparr>key = ''gpt-5.2-codex'', pricing = priceB, resolution = Fallback\<rparr>
           = Inr \<lparr>inputCostPerMToken = 2, cachedInputCostPerMToken = 1 / 2,
                  outputCostPerMToken = 9, pricingResolution = Fallback,
                  pricingModel = ''gpt-5.2-codex''\<rparr>"
    by (simp add: normalizeModelPricing_def toPerMillion_def MILLION_def priceB_def)
  from getPricing_fallback
         [of "[(''gpt-5.2-codex'', priceB)]" "''gpt-5.3-codex''"
             "\<lparr>allowFuzzyPricing = False, unknownModelFallback = Some '' gpt-5.2-codex ''\<rparr>"
             "'' gpt-5.2-codex ''", OF d a]
  show ?thesis
    by (simp add: t fd n fallbackWarning_def)
qed

text \<open>
  The claim C6 as worded fails for a configured fallback of two blanks: nothing resolves,
  and the error thrown is the plain not-found error, not the fallback error.
\<close>

theorem getPricing_fallback_counterexample:
  "findDirectPricing [(''gpt-5'', priceA)] ''claude'' = None
   \<and> findAliasPricing [(''gpt-5'', priceA)] ''claude'' = None
   \<and> findDirectPricing [(''gpt-5'', priceA)] ''  '' = None
   \<and> findAliasPricing [(''gpt-5'', priceA)] ''  '' = None
   \<and> getPricing \<lparr>allowFuzzyPricing = False, unknownModelFallback = Some ''  ''\<rparr>
         (Inr [(''gpt-5'', priceA)]) ''claude''
       = ([], Inl (Error ''Pricing not found for model claude. Fuzzy matching is disabled; pass --allow-fuzzy-pricing to enable it.''))"
  by (simp add: getPricing_def findDirectPricing_def findAliasPricing_def
      CODEX_PROVIDER_PREFIXES_def CODEX_MODEL_ALIASES_MAP_def trim_def is_space_def
      notFoundMessage_def)

text \<open>
  C8 (amended).  When the direct and alias tiers find nothing, fuzzy matching is off or
  finds no candidate, and no fallback is configured (or only a blank one), \<open>getPricing\<close>
  throws the not-found error naming the model.  With fuzzy matching off the message goes
  on to say that fuzzy matching is disabled and which flag enables it; with fuzzy matching
  on the message is only "Pricing not found for model ..." and does not mention fuzzy
  matching.
\<close>

theorem getPricing_not_found:
  "findDirectPricing pm m = None \<Longrightarrow> findAliasPricing pm m = None \<Longrightarrow>
   (allowFuzzyPricing this \<longrightarrow> findFuzzyPricing pm m = Inr None) \<Longrightarrow>
   (case unknownModelFallback this of None \<Rightarrow> True | Some fb \<Rightarrow> trim fb = []) \<Longrightarrow>
   getPricing this (Inr pm) m =
     ([], Inl (Error
        (if allowFuzzyPricing this
         then ''Pricing not found for model '' @ m
         else ''Pricing not found for model '' @ m
                @ ''. Fuzzy matching is disabled; pass --allow-fuzzy-pricing to enable it.'')))"
  by (cases "allowFuzzyPricing this")
     (simp_all add: getPricing_def notFoundMessage_def split: option.splits)

theorem getPricing_not_found_witness:
  "getPricing \<lparr>allowFuzzyPricing = False, unknownModelFallback = None\<rparr>
     (Inr [(''gpt-5.2-codex'', priceB)]) ''gpt-5.3-codex''
   = ([], Inl (Error ''Pricing not found for model gpt-5.3-codex. Fuzzy matching is disabled; pass --allow-fuzzy-pricing to enable it.''))"
proof -
  have d: "findDirectPricing [(''gpt-5.2-codex'', priceB)] ''gpt-5.3-codex'' = None"
    by (simp add: findDirectPricing_def CODEX_PROVIDER_PREFIXES_def)
  have a: "findAliasPricing [(''gpt-5.2-codex'', priceB)] ''gpt-5.3-codex'' = None"
    by (simp add: findAliasPricing_def CODEX_MODEL_ALIASES_MAP_def)
  from getPricing_not_found
         [of "[(''gpt-5.2-codex'', priceB)]" "''gpt-5.3-codex''"
             "\<lparr>allowFuzzyPricing = False, unknownModelFallback = None\<rparr>", OF d a]
  show ?thesis by simp
qed

text \<open>
  The claim C8 as worded fails when fuzzy matching is enabled: the message then says
  nothing about fuzzy matching.
\<close>

theorem getPricing_not_found_counterexample:
  "getPricing \<lparr>allowFuzzyPricing = True, unknownModelFallback = None\<rparr>
     (Inr [(''gpt-5'', priceA)]) ''claude''
     = ([], Inl (Error ''Pricing not found for model claude''))
   \<and> \<not> includes_str (toLowerCase ''Pricing not found for model claude'') ''fuzzy''"
proof -
  have f: "\<not> fuzzy_match ''claude'' ''gpt-5''" by code_simp
  have fz: "findFuzzyPricing [(''gpt-5'', priceA)] ''claude'' = Inr None"
    by (simp add: findFuzzyPricing_filter f)
  have g: "getPricing \<lparr>allowFuzzyPricing = True, unknownModelFallback = None\<rparr>
     (Inr [(''gpt-5'', priceA)]) ''claude''
     = ([], Inl (Error ''Pricing not found for model claude''))"
    by (simp add: getPricing_def findDirectPricing_def findAliasPricing_def
      CODEX_PROVIDER_PREFIXES_def CODEX_MODEL_ALIASES_MAP_def fz notFoundMessage_def)
  have n: "\<not> includes_str (toLowerCase ''Pricing not found for model claude'') ''fuzzy''"
    by code_simp
  from g n show ?thesis by blast
qed

section \<open>Properties of the report builders\<close>

subsection \<open>Sorting with a comparison function\<close>

lemma mset_insertBy: "mset (insertBy c x ys) = add_mset x (mset ys)"
  by (induction ys) simp_all

lemma array_sort_Cons: "array_sort c (x # xs) = insertBy c x (array_sort c xs)"
  by (simp add: array_sort_def)

lemma array_sort_Nil: "array_sort c [] = []"
  by (simp add: array_sort_def)

lemma mset_array_sort: "mset (array_sort c xs) = mset xs"
  by (induction xs) (simp_all add: array_sort_Nil array_sort_Cons mset_insertBy)

lemma set_array_sort: "set (array_sort c xs) = set xs"
  by (metis mset_array_sort set_mset_mset)

lemma set_insertBy: "set (insertBy c x ys) = insert x (set ys)"
  by (metis mset_insertBy set_mset_add_mset_insert set_mset_mset)

lemma consistent_total: "consistent_comparator c \<Longrightarrow> c a b \<le> 0 \<or> c b a \<le> 0"
  unfolding consistent_comparator_def by (metis linorder_not_less order_less_imp_le)

lemma consistent_trans:
  "consistent_comparator c \<Longrightarrow> c a b \<le> 0 \<Longrightarrow> c b d \<le> 0 \<Longrightarrow> c a d \<le> 0"
  unfolding consistent_comparator_def by blast

lemma consistent_sym: "consistent_comparator c \<Longrightarrow> c a b = 0 \<longleftrightarrow> c b a = 0"
  unfolding consistent_comparator_def by (metis linorder_neqE_linordered_idom order_less_irrefl)

lemma consistent_refl: "consistent_comparator c \<Longrightarrow> c a a = 0"
  unfolding consistent_comparator_def by (metis linorder_neqE_linordered_idom order_less_asym)

lemma consistent_antisym:
  "consistent_comparator c \<Longrightarrow> c a b \<le> 0 \<Longrightarrow> c b a \<le> 0 \<Longrightarrow> c a b = 0"
  unfolding consistent_comparator_def by (metis linorder_not_less order_le_less)

lemma sorted_insertBy:
  assumes c: "consistent_comparator c"
    and s: "sorted_wrt (\<lambda>a b. c a b \<le> 0) ys"
  shows "sorted_wrt (\<lambda>a b. c a b \<le> 0) (insertBy c x ys)"
  using s
proof (induction ys)
  case Nil
  then show ?case by simp
next
  case (Cons y ys)
  show ?case
  proof (cases "c x y \<le> 0")
    case True
    have "\<forall>z \<in> set ys. c x z \<le> 0"
      using Cons.prems True consistent_trans[OF c] by auto
    with True Cons.prems show ?thesis by simp
  next
    case False
    then have "c y x \<le> 0" using consistent_total[OF c, of x y] by simp
    with False Cons show ?thesis by (auto simp: set_insertBy)
  qed
qed

lemma sorted_array_sort:
  "consistent_comparator c \<Longrightarrow> sorted_wrt (\<lambda>a b. c a b \<le> 0) (array_sort c xs)"
  by (induction xs) (simp_all add: array_sort_Nil array_sort_Cons sorted_insertBy)

lemma filter_insertBy:
  assumes "\<And>a b. P a \<Longrightarrow> P b \<Longrightarrow> c a b \<le> 0"
  shows "filter P (insertBy c x ys) = filter P (x # ys)"
  by (induction ys) (auto simp: assms)

lemma filter_array_sort:
  assumes "\<And>a b. P a \<Longrightarrow> P b \<Longrightarrow> c a b \<le> 0"
  shows "filter P (array_sort c xs) = filter P xs"
  by (induction xs) (simp_all add: array_sort_Nil array_sort_Cons filter_insertBy[of P c, OF assms])

lemma sorted_wrt_unique:
  assumes "sorted_wrt le xs" "sorted_wrt le ys" "mset xs = mset ys"
    and "\<And>a b. a \<in> set xs \<Longrightarrow> b \<in> set xs \<Longrightarrow> le a b \<Longrightarrow> le b a \<Longrightarrow> a = b"
  shows "xs = ys"
  using assms
proof (induction xs arbitrary: ys)
  case Nil
  then show ?case by simp
next
  case (Cons x xs)
  from Cons.prems(3) obtain y ys' where ys: "ys = y # ys'"
    by (cases ys) auto
  have sets: "set (x # xs) = set (y # ys')"
    using Cons.prems(3) ys by (metis mset_eq_setD)
  have xy: "x = y"
  proof (rule ccontr)
    assume ne: "x \<noteq> y"
    with sets have "x \<in> set ys'" "y \<in> set xs" by auto
    with Cons.prems(1,2) ys have "le y x" "le x y" by auto
    with Cons.prems(4)[of x y] sets have "x = y" by auto
    with ne show False by simp
  qed
  with Cons.prems(3) ys have m: "mset xs = mset ys'" by simp
  have "xs = ys'"
  proof (rule Cons.IH)
    show "sorted_wrt le xs" using Cons.prems(1) by simp
    show "sorted_wrt le ys'" using Cons.prems(2) ys by simp
    show "mset xs = mset ys'" by (rule m)
    fix a b assume "a \<in> set xs" "b \<in> set xs" "le a b" "le b a"
    then show "a = b" using Cons.prems(4)[of a b] by simp
  qed
  with xy ys show ?case by simp
qed

lemma insertBy_map:
  "map g (insertBy (\<lambda>a b. c (g a) (g b)) x xs) = insertBy c (g x) (map g xs)"
  by (induction xs) auto

lemma array_sort_map:
  "map g (array_sort (\<lambda>a b. c (g a) (g b)) xs) = array_sort c (map g xs)"
  by (induction xs) (simp_all add: array_sort_Nil array_sort_Cons insertBy_map)

lemma consistent_comp:
  "consistent_comparator c \<Longrightarrow> consistent_comparator (\<lambda>a b. c (f a) (f b))"
  unfolding consistent_comparator_def by blast

lemma array_sort_perm:
  assumes c: "consistent_comparator c" and m: "mset xs = mset ys"
    and t: "tie_free c (map f xs)"
  shows "array_sort (\<lambda>a b. c (f a) (f b)) xs = array_sort (\<lambda>a b. c (f a) (f b)) ys"
proof (rule sorted_wrt_unique[where le = "\<lambda>a b. c (f a) (f b) \<le> 0"])
  let ?c = "\<lambda>a b. c (f a) (f b)"
  have cc: "consistent_comparator ?c" using c by (rule consistent_comp)
  show "sorted_wrt (\<lambda>a b. c (f a) (f b) \<le> 0) (array_sort ?c xs)"
    using sorted_array_sort[OF cc] .
  show "sorted_wrt (\<lambda>a b. c (f a) (f b) \<le> 0) (array_sort ?c ys)"
    using sorted_array_sort[OF cc] .
  show "mset (array_sort ?c xs) = mset (array_sort ?c ys)"
    by (simp add: mset_array_sort m)
  fix a b
  assume a: "a \<in> set (array_sort ?c xs)" and b: "b \<in> set (array_sort ?c xs)"
    and ab: "c (f a) (f b) \<le> 0" and ba: "c (f b) (f a) \<le> 0"
  from a b have ax: "a \<in> set xs" and bx: "b \<in> set xs" by (simp_all add: set_array_sort)
  from ab ba have "c (f a) (f b) = 0" by (rule consistent_antisym[OF c])
  with t ax bx have "f a = f b" by (auto simp: tie_free_def)
  moreover from t have "inj_on f (set xs)" by (simp add: tie_free_def distinct_map)
  ultimately show "a = b" using ax bx by (simp add: inj_on_def)
qed

lemma stable_sorted_unique:
  assumes c: "consistent_comparator c"
    and "mset ys = mset zs"
    and "sorted_wrt (\<lambda>a b. c a b \<le> 0) ys" "sorted_wrt (\<lambda>a b. c a b \<le> 0) zs"
    and "\<And>t. filter (\<lambda>x. c x t = 0) ys = filter (\<lambda>x. c x t = 0) zs"
  shows "ys = zs"
  using assms(2-)
proof (induction ys arbitrary: zs)
  case Nil
  then show ?case by simp
next
  case (Cons y ys)
  from Cons.prems(1) obtain z zs' where zs: "zs = z # zs'"
    by (cases zs) auto
  have sets: "set (y # ys) = set (z # zs')"
    using Cons.prems(1) zs by (metis mset_eq_setD)
  have yz: "c y z \<le> 0"
  proof (cases "z = y")
    case True
    then show ?thesis by (simp add: consistent_refl[OF c])
  next
    case False
    with sets have "z \<in> set ys" by auto
    with Cons.prems(2) show ?thesis by simp
  qed
  have zy: "c z y \<le> 0"
  proof (cases "z = y")
    case True
    then show ?thesis by (simp add: consistent_refl[OF c])
  next
    case False
    with sets have "y \<in> set zs'" by auto
    with Cons.prems(3) zs show ?thesis by simp
  qed
  from zy yz have t: "c z y = 0" by (rule consistent_antisym[OF c])
  have "filter (\<lambda>x. c x y = 0) (y # ys) = filter (\<lambda>x. c x y = 0) (z # zs')"
    using Cons.prems(4)[of y] zs by simp
  then have e: "y = z"
    by (simp add: consistent_refl[OF c] t)
  have "ys = zs'"
  proof (rule Cons.IH)
    show "mset ys = mset zs'" using Cons.prems(1) zs e by simp
    show "sorted_wrt (\<lambda>a b. c a b \<le> 0) ys" using Cons.prems(2) by simp
    show "sorted_wrt (\<lambda>a b. c a b \<le> 0) zs'" using Cons.prems(3) zs by simp
    fix t
    from Cons.prems(4)[of t] zs e
    show "filter (\<lambda>x. c x t = 0) ys = filter (\<lambda>x. c x t = 0) zs'"
      by (simp split: if_splits)
  qed
  with e zs show ?case by simp
qed

text \<open>
  For a consistent comparison function, \<open>array_sort\<close> gives the only arrangement of
  the array that is sorted and keeps the elements that tie in their order.
\<close>

lemma array_sort_unique:
  assumes c: "consistent_comparator c"
    and m: "mset ys = mset xs"
    and s: "sorted_wrt (\<lambda>a b. c a b \<le> 0) ys"
    and st: "\<And>t. filter (\<lambda>x. c x t = 0) ys = filter (\<lambda>x. c x t = 0) xs"
  shows "ys = array_sort c xs"
proof (rule stable_sorted_unique[OF c])
  show "mset ys = mset (array_sort c xs)" by (simp add: m mset_array_sort)
  show "sorted_wrt (\<lambda>a b. c a b \<le> 0) ys" by (rule s)
  show "sorted_wrt (\<lambda>a b. c a b \<le> 0) (array_sort c xs)" by (rule sorted_array_sort[OF c])
  fix t
  have "filter (\<lambda>x. c x t = 0) (array_sort c xs) = filter (\<lambda>x. c x t = 0) xs"
  proof (rule filter_array_sort)
    fix a b assume a: "c a t = 0" and b: "c b t = 0"
    from b have "c t b = 0" by (simp only: consistent_sym[OF c])
    with a consistent_trans[OF c, of a t b] show "c a b \<le> 0" by simp
  qed
  with st[of t] show "filter (\<lambda>x. c x t = 0) ys = filter (\<lambda>x. c x t = 0) (array_sort c xs)"
    by simp
qed

lemma consistent_codeUnitCompare: "consistent_comparator codeUnitCompare"
  unfolding consistent_comparator_def codeUnitCompare_def by auto

lemma firstSeen_set: "set (firstSeen xs) = set xs"
  by (induction xs) auto

lemma firstSeen_snoc:
  "firstSeen (xs @ [x]) = (if x \<in> set xs then firstSeen xs else firstSeen xs @ [x])"
  by (induction xs) (auto simp: firstSeen_set)

lemma firstSeen_distinct: "distinct (firstSeen xs)"
  by (induction xs) (auto simp: distinct_removeAll)

subsection \<open>Assignments to a plain object\<close>

lemma map_of_insertIndexed:
  "map_of obj k = None \<Longrightarrow> map_of (insertIndexed k v obj) = (map_of obj)(k \<mapsto> v)"
proof (induction obj)
  case Nil
  then show ?case by simp
next
  case (Cons a obj)
  obtain k' v' where a: "a = (k', v')" by (cases a)
  with Cons.prems have ne: "k' \<noteq> k" and n: "map_of obj k = None"
    by (auto split: if_splits)
  from Cons.IH[OF n] a ne show ?case
    by (auto simp: fun_upd_twist)
qed

lemma map_of_snoc:
  "map_of obj k = None \<Longrightarrow> map_of (obj @ [(k, v)]) = (map_of obj)(k \<mapsto> v)"
  by (induction obj) (auto simp: fun_upd_twist split: if_splits)

lemma map_of_objectSet:
  "map_of (objectSet obj k v) =
     (if k = ''__proto__'' then map_of obj else (map_of obj)(k \<mapsto> v))"
  by (cases "map_of obj k")
     (simp_all add: objectSet_def map_of_insertIndexed map_of_snoc AList.update_conv'
        del: map_of_append)

lemma map_of_fold_objectSet:
  "distinct (map fst ms) \<Longrightarrow>
   map_of (fold (\<lambda>(n, u) obj. objectSet obj n (t n u)) ms obj) =
     (\<lambda>n. if n \<noteq> ''__proto__'' \<and> n \<in> fst ` set ms
          then map_option (t n) (map_of ms n) else map_of obj n)"
proof (induction ms arbitrary: obj)
  case Nil
  then show ?case by simp
next
  case (Cons a ms)
  obtain n0 u0 where a: "a = (n0, u0)" by (cases a)
  from Cons.prems a have d: "distinct (map fst ms)" and nin: "n0 \<notin> fst ` set ms"
    by auto
  show ?case
    unfolding a using nin
    by (auto simp: Cons.IH[OF d] map_of_objectSet fun_eq_iff)
qed

lemma mset_insertIndexed: "mset (insertIndexed k v obj) = add_mset (k, v) (mset obj)"
  by (induction obj) auto

lemma mset_objectSet:
  "k \<noteq> ''__proto__'' \<Longrightarrow> map_of obj k = None \<Longrightarrow>
   mset (objectSet obj k v) = add_mset (k, v) (mset obj)"
  by (simp add: objectSet_def mset_insertIndexed)

lemma mset_fold_objectSet:
  "distinct (map fst ms) \<Longrightarrow> fst ` set obj \<inter> fst ` set ms = {} \<Longrightarrow>
   mset (fold (\<lambda>(n, u) obj. objectSet obj n (t n u)) ms obj) =
     mset obj + mset (map (\<lambda>(n, u). (n, t n u)) (filter (\<lambda>(n, u). n \<noteq> ''__proto__'') ms))"
proof (induction ms arbitrary: obj)
  case Nil
  then show ?case by simp
next
  case (Cons a ms)
  obtain n0 u0 where a: "a = (n0, u0)" by (cases a)
  from Cons.prems a have d: "distinct (map fst ms)" and nin: "n0 \<notin> fst ` set ms"
    and no: "n0 \<notin> fst ` set obj" and dis: "fst ` set obj \<inter> fst ` set ms = {}"
    by auto
  show ?case
  proof (cases "n0 = ''__proto__''")
    case True
    then have "objectSet obj n0 (t n0 u0) = obj" by (simp add: objectSet_def)
    with Cons.IH[OF d dis] True show ?thesis by (simp add: a)
  next
    case False
    from no have none: "map_of obj n0 = None" by (simp add: map_of_eq_None_iff)
    have m: "mset (objectSet obj n0 (t n0 u0)) = add_mset (n0, t n0 u0) (mset obj)"
      using False none by (rule mset_objectSet)
    then have "set (objectSet obj n0 (t n0 u0)) = insert (n0, t n0 u0) (set obj)"
      by (metis set_mset_add_mset_insert set_mset_mset)
    with dis nin have "fst ` set (objectSet obj n0 (t n0 u0)) \<inter> fst ` set ms = {}"
      by auto
    from Cons.IH[OF d this] m False show ?thesis by (simp add: a)
  qed
qed

text \<open>
  The keys of an object filled with \<open>10\<close>, \<open>gpt-5\<close>, \<open>__proto__\<close>, \<open>9\<close> and \<open>o3\<close>, in this
  order.
\<close>

lemma objectSet_keys_example:
  "map fst (fold (\<lambda>k obj. objectSet obj k ()) [''10'', ''gpt-5'', ''__proto__'', ''9'', ''o3''] [])
     = [''9'', ''10'', ''gpt-5'', ''o3'']"
  by code_simp

subsection \<open>The three loops as one\<close>

lemma addUsage_simps [simp]:
  "inputTokens (addUsage d a) = inputTokens d + inputTokens a"
  "cachedInputTokens (addUsage d a) = cachedInputTokens d + cachedInputTokens a"
  "outputTokens (addUsage d a) = outputTokens d + outputTokens a"
  "reasoningOutputTokens (addUsage d a) = reasoningOutputTokens d + reasoningOutputTokens a"
  "totalTokens (addUsage d a) = totalTokens d + totalTokens a"
  "TokenUsageDelta.more (addUsage d a) = TokenUsageDelta.more d"
  by (simp_all add: addUsage_def)

lemma addUsage_commute:
  "addUsage (addUsage d a) b = addUsage (addUsage d b) a"
  by (rule TokenUsageDelta.equality) simp_all

lemma mbump_simps [simp]:
  "inputTokens (mbump uo e) =
     inputTokens (case uo of Some u \<Rightarrow> u | None \<Rightarrow> emptyModelUsage) + inputTokens e"
  "cachedInputTokens (mbump uo e) =
     cachedInputTokens (case uo of Some u \<Rightarrow> u | None \<Rightarrow> emptyModelUsage) + cachedInputTokens e"
  "outputTokens (mbump uo e) =
     outputTokens (case uo of Some u \<Rightarrow> u | None \<Rightarrow> emptyModelUsage) + outputTokens e"
  "reasoningOutputTokens (mbump uo e) =
     reasoningOutputTokens (case uo of Some u \<Rightarrow> u | None \<Rightarrow> emptyModelUsage)
       + reasoningOutputTokens e"
  "totalTokens (mbump uo e) =
     totalTokens (case uo of Some u \<Rightarrow> u | None \<Rightarrow> emptyModelUsage) + totalTokens e"
  "isFallback (mbump uo e) =
     (if isFallbackModel e = Some True then Some True
      else isFallback (case uo of Some u \<Rightarrow> u | None \<Rightarrow> emptyModelUsage))"
  "ModelUsage.pricingResolution (mbump uo e) =
     ModelUsage.pricingResolution (case uo of Some u \<Rightarrow> u | None \<Rightarrow> emptyModelUsage)"
  "ModelUsage.pricingModel (mbump uo e) =
     ModelUsage.pricingModel (case uo of Some u \<Rightarrow> u | None \<Rightarrow> emptyModelUsage)"
  by (simp_all add: mbump_def Let_def addUsage_def)

lemma mbump_commute:
  "mbump (Some (mbump uo a)) b = mbump (Some (mbump uo b)) a"
  by (rule ModelUsage.equality) simp_all

lemma map_of_addModelUsage:
  "map_of (addModelUsage ms n e) = (map_of ms)(n \<mapsto> mbump (map_of ms n) e)"
  by (simp add: addModelUsage_def mbump_def Let_def AList.update_conv')

lemma gv_gstep_entry:
  "GV (gstep track (Some (k, n)) e G) = (GV G)(k \<mapsto> vbump track k n e (GV G k))"
proof (cases "map_of G k")
  case None
  then show ?thesis
    by (auto simp: GV_def gstep_def Let_def AList.update_conv' gv_def vbump_def
        map_of_addModelUsage fun_eq_iff max_def)
next
  case (Some g)
  then show ?thesis
    by (auto simp: GV_def gstep_def Let_def AList.update_conv' gv_def vbump_def
        map_of_addModelUsage fun_eq_iff max_def)
qed

lemma GV_gstep: "GV (gstep track acc e G) = astep track acc e (GV G)"
proof (cases acc)
  case None
  then show ?thesis by (simp add: gstep_def astep_def)
next
  case (Some kn)
  then show ?thesis
    by (cases kn) (simp add: gv_gstep_entry astep_def)
qed

lemma vbump_Some:
  "vbump track k n e (Some (k', d, M, l)) =
     (k', addUsage d e, M(n \<mapsto> mbump (M n) e), if track then max l (timestamp e) else l)"
  by (simp add: vbump_def)

lemma vbump_None:
  "vbump track k n e None =
     (k, addUsage createEmptyUsage e, [n \<mapsto> mbump None e],
      if track then timestamp e else [])"
  by (simp add: vbump_def)

lemma models_commute:
  "(M(n \<mapsto> mbump (M n) a))(n' \<mapsto> mbump ((M(n \<mapsto> mbump (M n) a)) n') b) =
   (M(n' \<mapsto> mbump (M n') b))(n \<mapsto> mbump ((M(n' \<mapsto> mbump (M n') b)) n) a)"
proof (cases "n = n'")
  case True
  then show ?thesis by (simp add: mbump_commute[of "M n'" a b])
next
  case False
  then show ?thesis by (simp add: fun_upd_twist)
qed

lemma last_commute:
  "(if track then max (if track then max l (ta::string) else l) tb
    else (if track then max l ta else l)) =
   (if track then max (if track then max l tb else l) ta
    else (if track then max l tb else l))"
  by (cases track) (simp_all add: max.commute max.left_commute)

lemma vbump_commute_tuple:
  "vbump track k n' b (Some (vbump track k n a (Some (k', d, M, l)))) =
   vbump track k n a (Some (vbump track k n' b (Some (k', d, M, l))))"
  unfolding vbump_Some
  by (simp only: prod.inject addUsage_commute[of d a b] models_commute[of M n a n' b]
        last_commute[of track l "timestamp a" "timestamp b"] simp_thms)

lemma vbump_None_Some:
  "vbump track k n e None =
     vbump track k n e
       (Some (k, createEmptyUsage, Map.empty, if track then timestamp e else []))"
  unfolding vbump_Some vbump_None by simp

lemma vbump_init_last:
  "vbump track k n' b (Some (vbump track k n a
      (Some (k, createEmptyUsage, Map.empty, if track then timestamp a else [])))) =
   vbump track k n' b (Some (vbump track k n a
      (Some (k, createEmptyUsage, Map.empty, if track then timestamp b else []))))"
  unfolding vbump_Some
  by (cases track) (simp_all add: max.commute max.left_commute)

lemma vbump_commute:
  "vbump track k n' b (Some (vbump track k n a vo)) = vbump track k n a (Some (vbump track k n' b vo))"
proof (cases vo)
  case None
  have "vbump track k n' b (Some (vbump track k n a None)) =
        vbump track k n' b (Some (vbump track k n a
          (Some (k, createEmptyUsage, Map.empty, if track then timestamp a else []))))"
    by (simp only: vbump_None_Some[of track k n a])
  also have "\<dots> = vbump track k n' b (Some (vbump track k n a
          (Some (k, createEmptyUsage, Map.empty, if track then timestamp b else []))))"
    by (rule vbump_init_last)
  also have "\<dots> = vbump track k n a (Some (vbump track k n' b
          (Some (k, createEmptyUsage, Map.empty, if track then timestamp b else []))))"
    by (rule vbump_commute_tuple)
  also have "\<dots> = vbump track k n a (Some (vbump track k n' b None))"
    by (simp only: vbump_None_Some[of track k n' b])
  finally show ?thesis using None by simp
next
  case (Some v)
  obtain k' d M l where "v = (k', d, M, l)" by (cases v)
  with Some show ?thesis by (simp only: vbump_commute_tuple)
qed

lemma astep_commute:
  "astep track acc a (astep track acc' b V) = astep track acc' b (astep track acc a V)"
proof (cases acc)
  case None
  then show ?thesis by (simp add: astep_def)
next
  case (Some kn)
  note s1 = Some
  show ?thesis
  proof (cases acc')
    case None
    then show ?thesis by (simp add: astep_def)
  next
    case (Some kn')
    obtain k n where kn: "kn = (k, n)" by (cases kn)
    obtain k' n' where kn': "kn' = (k', n')" by (cases kn')
    show ?thesis
    proof (cases "k = k'")
      case True
      with s1 Some kn kn' show ?thesis
        by (simp add: astep_def vbump_commute)
    next
      case False
      with s1 Some kn kn' show ?thesis
        by (auto simp: astep_def fun_upd_twist)
    qed
  qed
qed

lemma GV_gfold_aux:
  "GV (fold (\<lambda>e. gstep track (acc e) e) es G) = fold (\<lambda>e. astep track (acc e) e) es (GV G)"
  by (induction es arbitrary: G) (simp_all add: GV_gstep)

lemma GV_gfold_perm:
  assumes "mset es = mset es'"
  shows "GV (gfold track acc es) = GV (gfold track acc es')"
proof -
  have "fold (\<lambda>e. astep track (acc e) e) es = fold (\<lambda>e. astep track (acc e) e) es'"
    by (rule fold_multiset_equiv) (auto simp: fun_eq_iff astep_commute assms)
  then show ?thesis
    by (simp add: gfold_def GV_gfold_aux)
qed

lemma map_of_apsnd: "map_of (map (apsnd f) S) k = map_option f (map_of S k)"
  by (induction S) auto

lemma update_apsnd:
  "map (apsnd f) (AList.update k v S) = AList.update k (f v) (map (apsnd f) S)"
  by (induction S) auto

lemma delta_of_addUsage: "delta_of (addUsage s e) = addUsage (delta_of s) e"
  by (rule TokenUsageDelta.equality) (simp_all add: delta_of_def)

lemma delta_of_zero:
  "inputTokens s = 0 \<Longrightarrow> cachedInputTokens s = 0 \<Longrightarrow> outputTokens s = 0 \<Longrightarrow>
   reasoningOutputTokens s = 0 \<Longrightarrow> totalTokens s = 0 \<Longrightarrow> delta_of s = createEmptyUsage"
  by (simp add: delta_of_def createEmptyUsage_def)

lemma gen_daily_create:
  "gen_daily (createSummary_daily k ts) =
     \<lparr>gkey = k, gdelta = createEmptyUsage, gmodels = [], glast = []\<rparr>"
  by (simp add: gen_daily_def createSummary_daily_def delta_of_zero)

lemma gen_daily_bump:
  "gen_daily (addUsage s e\<lparr>DailyUsageSummary.models := ms\<rparr>) =
     (gen_daily s)\<lparr>gdelta := addUsage (gdelta (gen_daily s)) e, gmodels := ms\<rparr>"
  by (simp add: gen_daily_def delta_of_addUsage[symmetric] delta_of_def addUsage_def)

lemma models_addUsage_daily [simp]:
  "DailyUsageSummary.models (addUsage s e) = DailyUsageSummary.models s"
  by (simp add: addUsage_def)

lemma gmodels_gen_daily [simp]: "gmodels (gen_daily s) = DailyUsageSummary.models s"
  by (simp add: gen_daily_def)

lemma models_create_daily [simp]: "DailyUsageSummary.models (createSummary_daily k ts) = []"
  by (simp add: createSummary_daily_def)

lemma dailyStep_sim:
  "map (apsnd gen_daily) (dailyStep du options e S) =
     gstep False (accept_daily du options e) e (map (apsnd gen_daily) S)"
proof (cases "accept_daily du options e")
  case None
  then have "dailyStep du options e S = S"
    by (auto simp: dailyStep_def accept_daily_def Let_def split: option.splits if_splits)
  with None show ?thesis by (simp add: gstep_def)
next
  case (Some kn)
  obtain k n where kn: "kn = (k, n)" by (cases kn)
  from Some kn obtain raw where raw: "model e = Some raw" "trim raw \<noteq> []" "n = trim raw"
    "k = toDateKey du (timestamp e) (timezone options)"
    "isWithinRange k (since options) (until options)"
    by (auto simp: accept_daily_def split: option.splits if_splits)
  show ?thesis
  proof (cases "map_of S k")
    case None
    with raw Some kn show ?thesis
      by (simp add: dailyStep_def gstep_def Let_def update_apsnd map_of_apsnd
          gen_daily_bump gen_daily_create)
  next
    case (Some s)
    with raw \<open>accept_daily du options e = Some kn\<close> kn show ?thesis
      by (simp add: dailyStep_def gstep_def Let_def update_apsnd map_of_apsnd
          gen_daily_bump)
  qed
qed

lemma gen_monthly_create:
  "gen_monthly (createSummary_monthly k ts) =
     \<lparr>gkey = k, gdelta = createEmptyUsage, gmodels = [], glast = []\<rparr>"
  by (simp add: gen_monthly_def createSummary_monthly_def delta_of_zero)

lemma gen_monthly_bump:
  "gen_monthly (addUsage s e\<lparr>MonthlyUsageSummary.models := ms\<rparr>) =
     (gen_monthly s)\<lparr>gdelta := addUsage (gdelta (gen_monthly s)) e, gmodels := ms\<rparr>"
  by (simp add: gen_monthly_def delta_of_addUsage[symmetric] delta_of_def addUsage_def)

lemma models_addUsage_monthly [simp]:
  "MonthlyUsageSummary.models (addUsage s e) = MonthlyUsageSummary.models s"
  by (simp add: addUsage_def)

lemma gmodels_gen_monthly [simp]: "gmodels (gen_monthly s) = MonthlyUsageSummary.models s"
  by (simp add: gen_monthly_def)

lemma models_create_monthly [simp]: "MonthlyUsageSummary.models (createSummary_monthly k ts) = []"
  by (simp add: createSummary_monthly_def)

lemma monthlyStep_sim:
  "map (apsnd gen_monthly) (monthlyStep du options e S) =
     gstep False (accept_monthly du options e) e (map (apsnd gen_monthly) S)"
proof (cases "accept_monthly du options e")
  case None
  then have "monthlyStep du options e S = S"
    by (auto simp: monthlyStep_def accept_monthly_def Let_def split: option.splits if_splits)
  with None show ?thesis by (simp add: gstep_def)
next
  case (Some kn)
  obtain k n where kn: "kn = (k, n)" by (cases kn)
  from Some kn obtain raw where raw: "model e = Some raw" "trim raw \<noteq> []" "n = trim raw"
    "k = toMonthKey du (timestamp e) (timezone options)"
    "isWithinRange (toDateKey du (timestamp e) (timezone options)) (since options) (until options)"
    by (auto simp: accept_monthly_def split: option.splits if_splits)
  show ?thesis
  proof (cases "map_of S k")
    case None
    with raw Some kn show ?thesis
      by (simp add: monthlyStep_def gstep_def Let_def update_apsnd map_of_apsnd
          gen_monthly_bump gen_monthly_create)
  next
    case (Some s)
    with raw \<open>accept_monthly du options e = Some kn\<close> kn show ?thesis
      by (simp add: monthlyStep_def gstep_def Let_def update_apsnd map_of_apsnd
          gen_monthly_bump)
  qed
qed

lemma gen_session_create:
  "gen_session (createSummary_session k ts) =
     \<lparr>gkey = k, gdelta = createEmptyUsage, gmodels = [], glast = ts\<rparr>"
  by (simp add: gen_session_def createSummary_session_def delta_of_zero)

lemma gen_session_bump:
  "gen_session (addUsage s e\<lparr>lastTimestamp := l, SessionUsageSummary.models := ms\<rparr>) =
     (gen_session s)\<lparr>gdelta := addUsage (gdelta (gen_session s)) e, glast := l, gmodels := ms\<rparr>"
  "gen_session (addUsage s e\<lparr>SessionUsageSummary.models := ms\<rparr>) =
     (gen_session s)\<lparr>gdelta := addUsage (gdelta (gen_session s)) e, gmodels := ms\<rparr>"
  by (simp_all add: gen_session_def delta_of_addUsage[symmetric] delta_of_def addUsage_def)

lemma models_addUsage_session [simp]:
  "SessionUsageSummary.models (addUsage s e) = SessionUsageSummary.models s"
  "lastTimestamp (addUsage s e) = lastTimestamp s"
  by (simp_all add: addUsage_def)

lemma gmodels_gen_session [simp]:
  "gmodels (gen_session s) = SessionUsageSummary.models s"
  "glast (gen_session s) = lastTimestamp s"
  by (simp_all add: gen_session_def)

lemma models_create_session [simp]:
  "SessionUsageSummary.models (createSummary_session k ts) = []"
  "lastTimestamp (createSummary_session k ts) = ts"
  by (simp_all add: createSummary_session_def)

lemma sessionStep_sim:
  "map (apsnd gen_session) (sessionStep du options e S) =
     gstep True (accept_session du options e) e (map (apsnd gen_session) S)"
proof (cases "accept_session du options e")
  case None
  then have "sessionStep du options e S = S"
    by (auto simp: sessionStep_def accept_session_def Let_def split: option.splits if_splits)
  with None show ?thesis by (simp add: gstep_def)
next
  case (Some kn)
  obtain k n where kn: "kn = (k, n)" by (cases kn)
  from Some kn obtain raw rawS where raw: "model e = Some raw" "trim raw \<noteq> []" "n = trim raw"
    "TokenUsageEvent.sessionId e = Some rawS" "trim rawS \<noteq> []" "k = trim rawS"
    "isWithinRange (toDateKey du (timestamp e) (timezone options)) (since options) (until options)"
    by (auto simp: accept_session_def split: option.splits if_splits)
  show ?thesis
  proof (cases "map_of S k")
    case None
    with raw Some kn show ?thesis
      by (simp add: sessionStep_def gstep_def Let_def update_apsnd map_of_apsnd
          gen_session_bump gen_session_create)
  next
    case (Some s)
    with raw \<open>accept_session du options e = Some kn\<close> kn show ?thesis
      by (simp add: sessionStep_def gstep_def Let_def update_apsnd map_of_apsnd
          gen_session_bump)
  qed
qed

lemma fold_sim:
  assumes "\<And>e S. map (apsnd gen) (step e S) = gstep track (acc e) e (map (apsnd gen) S)"
  shows "map (apsnd gen) (fold step es S) =
           fold (\<lambda>e. gstep track (acc e) e) es (map (apsnd gen) S)"
  by (induction es arbitrary: S) (simp_all add: assms)

lemma dailySummaries_sim:
  "map (apsnd gen_daily) (dailySummaries du options es) = gfold False (accept_daily du options) es"
  unfolding dailySummaries_def gfold_def
  by (simp add: fold_sim[where gen = gen_daily and acc = "accept_daily du options", OF dailyStep_sim])

lemma monthlySummaries_sim:
  "map (apsnd gen_monthly) (monthlySummaries du options es) =
     gfold False (accept_monthly du options) es"
  unfolding monthlySummaries_def gfold_def
  by (simp add: fold_sim[where gen = gen_monthly and acc = "accept_monthly du options",
        OF monthlyStep_sim])

lemma sessionSummaries_sim:
  "map (apsnd gen_session) (sessionSummaries du options es) =
     gfold True (accept_session du options) es"
  unfolding sessionSummaries_def gfold_def
  by (simp add: fold_sim[where gen = gen_session and acc = "accept_session du options",
        OF sessionStep_sim])

subsection \<open>Invariants and views of the accumulated summaries\<close>

lemma set_update_subset: "set (AList.update k v al) \<subseteq> insert (k, v) (set al)"
  by (induction al) auto

lemma distinct_addModelUsage:
  "distinct (map fst ms) \<Longrightarrow> distinct (map fst (addModelUsage ms n e))"
  by (simp add: addModelUsage_def Let_def AList.distinct_update)

lemma ginv_gstep:
  assumes "ginv G"
  shows "ginv (gstep track acc e G)"
proof (cases acc)
  case None
  with assms show ?thesis by (simp add: gstep_def)
next
  case (Some kn)
  obtain k n where kn: "kn = (k, n)" by (cases kn)
  define g where "g = (case map_of G k of
                     Some g \<Rightarrow> g
                   | None \<Rightarrow> \<lparr>gkey = k, gdelta = createEmptyUsage, gmodels = [],
                               glast = (if track then timestamp e else [])\<rparr>)"
  have g: "gkey g = k \<and> distinct (map fst (gmodels g))"
  proof (cases "map_of G k")
    case None
    then show ?thesis by (simp add: g_def)
  next
    case (Some g')
    then have "(k, g') \<in> set G" by (rule map_of_SomeD)
    with assms Some show ?thesis by (auto simp: ginv_def g_def)
  qed
  obtain g3 where step: "gstep track acc e G = AList.update k g3 G"
    and g3: "gkey g3 = gkey g" "gmodels g3 = addModelUsage (gmodels g) n e"
    using Some kn by (auto simp: gstep_def Let_def g_def)
  have "distinct (map fst (AList.update k g3 G))"
    using assms by (simp add: ginv_def AList.distinct_update)
  moreover have "\<forall>(k', g') \<in> set (AList.update k g3 G).
                    gkey g' = k' \<and> distinct (map fst (gmodels g'))"
  proof -
    have "gkey g3 = k \<and> distinct (map fst (gmodels g3))"
      using g g3 by (simp add: distinct_addModelUsage)
    with assms set_update_subset[of k g3 G] show ?thesis
      by (auto simp: ginv_def)
  qed
  ultimately show ?thesis by (simp add: step ginv_def)
qed

lemma ginv_fold:
  "ginv G \<Longrightarrow> ginv (fold (\<lambda>e. gstep track (acc e) e) es G)"
  by (induction es arbitrary: G) (simp_all add: ginv_gstep)

lemma ginv_gfold: "ginv (gfold track acc es)"
  unfolding gfold_def by (rule ginv_fold) (simp add: ginv_def)

lemma map_of_gv_pairs: "map_of (map (apsnd gv) G) = GV G"
  by (simp add: fun_eq_iff map_of_apsnd GV_def)

lemma gviews_pairs: "gviews G = map snd (map (apsnd gv) G)"
  by (simp add: gviews_def)

lemma mset_gviews:
  assumes "distinct (map fst G)" "distinct (map fst G')" "GV G = GV G'"
  shows "mset (gviews G) = mset (gviews G')"
proof -
  have d: "distinct (map fst (map (apsnd gv) G))" "distinct (map fst (map (apsnd gv) G'))"
    using assms by (simp_all add: comp_def)
  have "map_of (map (apsnd gv) G) = map_of (map (apsnd gv) G')"
    using assms by (simp add: map_of_gv_pairs)
  with d have "set (map (apsnd gv) G) = set (map (apsnd gv) G')"
    by (simp only: map_of_inject_set)
  moreover from d have "distinct (map (apsnd gv) G)" "distinct (map (apsnd gv) G')"
    by (simp_all only: distinct_map[of fst, THEN iffD1, THEN conjunct1])
  ultimately have "mset (map (apsnd gv) G) = mset (map (apsnd gv) G')"
    by (simp only: set_eq_iff_mset_eq_distinct)
  then have "image_mset snd (mset (map (apsnd gv) G)) = image_mset snd (mset (map (apsnd gv) G'))"
    by simp
  then show ?thesis
    unfolding gviews_pairs by (simp only: mset_map)
qed

lemma gviews_keys: "ginv G \<Longrightarrow> map fst (gviews G) = map fst G"
  by (auto simp: ginv_def gviews_def gv_def)

lemma mset_gviews_perm:
  assumes "mset es = mset es'"
  shows "mset (gviews (gfold track acc es)) = mset (gviews (gfold track acc es'))"
proof (rule mset_gviews)
  show "distinct (map fst (gfold track acc es))"
    using ginv_gfold[of track acc es] by (simp add: ginv_def)
  show "distinct (map fst (gfold track acc es'))"
    using ginv_gfold[of track acc es'] by (simp add: ginv_def)
  show "GV (gfold track acc es) = GV (gfold track acc es')"
    using assms by (rule GV_gfold_perm)
qed

lemma set_fold_unique:
  "set (fold (\<lambda>n acc. if n \<in> set acc then acc else acc @ [n]) xs acc) = set acc \<union> set xs"
  by (induction xs arbitrary: acc) auto

lemma set_uniqueModels: "set (uniqueModels mss) = (\<Union>ms \<in> set mss. fst ` set ms)"
  by (simp add: uniqueModels_def set_fold_unique)

lemma resolveModels_isl:
  "isl (resolveModels ps ns acc) \<longleftrightarrow> (\<exists>n \<in> set ns. isl (ps n))"
  by (induction ns arbitrary: acc) (auto split: sum.splits)

lemma resolveModels_map:
  "resolveModels ps ns acc = Inr mp \<Longrightarrow>
   map_of mp = (\<lambda>n. if n \<in> set ns then (case ps n of Inr p \<Rightarrow> Some p | Inl e \<Rightarrow> None)
                     else map_of acc n)"
proof (induction ns arbitrary: acc)
  case Nil
  then show ?case by simp
next
  case (Cons n ns)
  from Cons.prems obtain p where p: "ps n = Inr p"
    and r: "resolveModels ps ns (AList.update n p acc) = Inr mp"
    by (auto split: sum.splits)
  from Cons.IH[OF r] p show ?case
    by (auto simp: fun_eq_iff AList.update_conv')
qed

lemma resolveModels_pmap:
  "resolveModels ps ns [] = Inr mp \<Longrightarrow> map_of mp = pmap ps (set ns)"
  by (drule resolveModels_map) (simp add: pmap_def fun_eq_iff)

lemma fold_cost:
  "fold (\<lambda>(n, u) c. case pm n of None \<Rightarrow> c | Some p \<Rightarrow> c + f u p) ms a =
     a + sum_list (map (\<lambda>(n, u). case pm n of None \<Rightarrow> (0::real) | Some p \<Rightarrow> f u p) ms)"
  by (induction ms arbitrary: a) (auto split: option.splits)

lemma sum_list_alist:
  "distinct (map fst ms) \<Longrightarrow>
   sum_list (map (\<lambda>(n, u). f n u) ms) = (\<Sum>n \<in> dom (map_of ms). (f n (the (map_of ms n)) :: real))"
proof (induction ms)
  case Nil
  then show ?case by simp
next
  case (Cons a ms)
  obtain n u where a: "a = (n, u)" by (cases a)
  from Cons.prems a have nin: "n \<notin> dom (map_of ms)" and d: "distinct (map fst ms)"
    by (auto simp: dom_map_of_conv_image_fst)
  have dom: "dom (map_of (a # ms)) = insert n (dom (map_of ms))"
    using a by auto
  have rest: "(\<Sum>m \<in> dom (map_of ms). f m (the (map_of (a # ms) m))) =
        (\<Sum>m \<in> dom (map_of ms). f m (the (map_of ms m)))"
    using nin a by (intro sum.cong) auto
  have hd_eq: "f n (the (map_of (a # ms) n)) = f n u"
    using a by simp
  have "(\<Sum>m \<in> dom (map_of (a # ms)). f m (the (map_of (a # ms) m))) =
        (\<Sum>m \<in> insert n (dom (map_of ms)). f m (the (map_of (a # ms) m)))"
    by (simp only: dom)
  also have "\<dots> = f n (the (map_of (a # ms) n))
                    + (\<Sum>m \<in> dom (map_of ms). f m (the (map_of (a # ms) m)))"
    using nin by (intro sum.insert) (simp_all only: finite_dom_map_of not_False_eq_True)
  also have "\<dots> = f n u + (\<Sum>m \<in> dom (map_of ms). f m (the (map_of ms m)))"
    by (simp only: hd_eq rest)
  finally have fin: "(\<Sum>m \<in> dom (map_of (a # ms)). f m (the (map_of (a # ms) m))) =
        f n u + (\<Sum>m \<in> dom (map_of ms). f m (the (map_of ms m)))" .
  have lhs: "sum_list (map (\<lambda>(n, u). f n u) (a # ms)) =
        f n u + sum_list (map (\<lambda>(n, u). f n u) ms)"
    using a by simp
  show ?case by (simp only: lhs fin Cons.IH[OF d])
qed

lemma rowCost_view:
  "distinct (map fst ms) \<Longrightarrow> rowCost mp ms = cost_of (map_of mp) (map_of ms)"
  unfolding rowCost_def cost_of_def
  by (simp add: fold_cost
      sum_list_alist[where f = "\<lambda>n u. case map_of mp n of None \<Rightarrow> 0 | Some p \<Rightarrow> calculateCostUSD u p"])

lemma rowModels_view:
  assumes "distinct (map fst ms)"
  shows "map_of (rowModels mp ms) =
           (\<lambda>n. if n = ''__proto__'' then None
                else map_option (tag_usage (map_of mp) n) (map_of ms n))"
proof -
  have "rowModels mp ms =
          fold (\<lambda>(n, u) obj. objectSet obj n (tag_usage (map_of mp) n u)) ms []"
    by (simp add: rowModels_def tag_usage_def)
  then show ?thesis
    using map_of_fold_objectSet[OF assms, of "tag_usage (map_of mp)" "[]"]
    by (auto simp: fun_eq_iff map_of_eq_None_iff)
qed

lemma rowModels_entries:
  assumes "distinct (map fst ms)"
  shows "mset (rowModels mp ms) =
           mset (map (\<lambda>(n, u). (n, tag_usage (map_of mp) n u))
                   (filter (\<lambda>(n, u). n \<noteq> ''__proto__'') ms))"
proof -
  have "rowModels mp ms =
          fold (\<lambda>(n, u) obj. objectSet obj n (tag_usage (map_of mp) n u)) ms []"
    by (simp add: rowModels_def tag_usage_def)
  then show ?thesis
    using mset_fold_objectSet[OF assms, of "[]" "tag_usage (map_of mp)"] by simp
qed

lemma vmodels_gv: "vmodels (gv g) = fst ` set (gmodels g)"
  by (simp add: vmodels_def gv_def dom_map_of_conv_image_fst)

lemma report_views_eq:
  assumes R: "resolveModels ps (uniqueModels (map (\<lambda>s. gmodels (gen s)) xs)) [] = R"
    and view: "\<And>mp s. s \<in> set xs \<Longrightarrow> view (row mp s) = P (RV (map_of mp) (gv (gen s)))"
    and kf: "\<And>s. kf s = h (gv (gen s))"
  shows "map_option (map view)
           (rows_of (case R of Inl e \<Rightarrow> Inl e
                     | Inr mp \<Rightarrow> Inr (map (row mp) (array_sort (\<lambda>a b. lc (kf a) (kf b)) xs))))
         = report_views lc P h ps (map (\<lambda>s. gv (gen s)) xs)"
proof -
  let ?N = "\<Union> (vmodels ` set (map (\<lambda>s. gv (gen s)) xs))"
  have N: "set (uniqueModels (map (\<lambda>s. gmodels (gen s)) xs)) = ?N"
    by (simp add: set_uniqueModels vmodels_gv)
  have iff: "isl R \<longleftrightarrow> (\<exists>n \<in> ?N. isl (ps n))"
    unfolding R[symmetric] by (simp only: resolveModels_isl N)
  show ?thesis
  proof (cases R)
    case (Inl e)
    with iff have "\<exists>n \<in> ?N. isl (ps n)"
      by simp
    with Inl show ?thesis
      by (simp add: report_views_def rows_of_def Let_def)
  next
    case (Inr mp)
    with R have r: "resolveModels ps (uniqueModels (map (\<lambda>s. gmodels (gen s)) xs)) [] = Inr mp"
      by simp
    from Inr iff have ok: "\<not> (\<exists>n \<in> ?N. isl (ps n))"
      by simp
    have pm: "map_of mp = pmap ps ?N"
      using resolveModels_pmap[OF r] by (simp only: N)
    have "map view (map (row mp) (array_sort (\<lambda>a b. lc (kf a) (kf b)) xs)) =
          map (\<lambda>s. P (RV (map_of mp) (gv (gen s)))) (array_sort (\<lambda>a b. lc (kf a) (kf b)) xs)"
      by (simp add: view set_array_sort)
    also have "\<dots> = map (\<lambda>v. P (RV (pmap ps ?N) v))
                       (map (\<lambda>s. gv (gen s))
                          (array_sort (\<lambda>a b. lc (h (gv (gen a))) (h (gv (gen b)))) xs))"
      by (simp add: pm kf[symmetric] comp_def)
    also have "\<dots> = map (\<lambda>v. P (RV (pmap ps ?N) v))
                       (array_sort (\<lambda>a b. lc (h a) (h b)) (map (\<lambda>s. gv (gen s)) xs))"
      using array_sort_map[of "\<lambda>s. gv (gen s)" "\<lambda>a b. lc (h a) (h b)" xs] by simp
    finally show ?thesis
      using Inr ok by (simp add: report_views_def rows_of_def Let_def)
  qed
qed

lemma dailyRow_view:
  "distinct (map fst (DailyUsageSummary.models s)) \<Longrightarrow>
   dailyRowView (dailyRow du options mp s) =
     daily_proj du options (RV (map_of mp) (gv (gen_daily s)))"
  by (simp add: dailyRowView_def dailyRow_def daily_proj_def RV_def gv_def rowCost_view
      rowModels_view gen_daily_def delta_of_def)

lemma snd_in_sim:
  assumes "map (apsnd gen) S = G" "ginv G" "s \<in> set (map snd S)"
  shows "distinct (map fst (gmodels (gen s)))"
proof -
  from assms(3) obtain k where "(k, s) \<in> set S" by auto
  then have "(k, gen s) \<in> set (map (apsnd gen) S)" by force
  with assms(1,2) show ?thesis by (auto simp: ginv_def)
qed

lemma gviews_sim:
  "map (apsnd gen) S = G \<Longrightarrow> map (\<lambda>s. gv (gen s)) (map snd S) = gviews G"
  by (auto simp: gviews_def)

lemma buildDailyReport_views:
  "map_option (map dailyRowView) (rows_of (buildDailyReport lc du options es)) =
     report_views lc (daily_proj du options) fst (pricingSource options)
       (gviews (gfold False (accept_daily du options) es))"
proof -
  let ?S = "dailySummaries du options es"
  let ?G = "gfold False (accept_daily du options) es"
  have sim: "map (apsnd gen_daily) ?S = ?G" by (rule dailySummaries_sim)
  have inv: "ginv ?G" by (rule ginv_gfold)
  have names: "map (\<lambda>(k, s). DailyUsageSummary.models s) ?S =
               map (\<lambda>s. gmodels (gen_daily s)) (map snd ?S)"
    by (simp add: case_prod_unfold)
  have main: "map_option (map dailyRowView)
           (rows_of (case resolveModels (pricingSource options)
                            (uniqueModels (map (\<lambda>s. gmodels (gen_daily s)) (map snd ?S))) [] of
                       Inl e \<Rightarrow> Inl e
                     | Inr mp \<Rightarrow> Inr (map (dailyRow du options mp)
                                        (array_sort (\<lambda>a b. lc (DailyUsageSummary.date a)
                                             (DailyUsageSummary.date b)) (map snd ?S)))))
        = report_views lc (daily_proj du options) fst (pricingSource options)
            (map (\<lambda>s. gv (gen_daily s)) (map snd ?S))"
  proof (rule report_views_eq[where gen = gen_daily and view = dailyRowView
        and row = "dailyRow du options" and kf = DailyUsageSummary.date and h = fst
        and P = "daily_proj du options" and lc = lc, OF refl])
    fix mp s assume "s \<in> set (map snd ?S)"
    then have "distinct (map fst (gmodels (gen_daily s)))"
      by (rule snd_in_sim[OF sim inv])
    then show "dailyRowView (dailyRow du options mp s) =
               daily_proj du options (RV (map_of mp) (gv (gen_daily s)))"
      by (simp add: dailyRow_view)
  next
    fix s show "DailyUsageSummary.date s = fst (gv (gen_daily s))"
      by (simp add: gv_def gen_daily_def)
  qed
  show ?thesis
    by (simp only: buildDailyReport_def Let_def names main gviews_sim[OF sim])
qed

lemma monthlyRow_view:
  "distinct (map fst (MonthlyUsageSummary.models s)) \<Longrightarrow>
   monthlyRowView (monthlyRow du options mp s) =
     monthly_proj du options (RV (map_of mp) (gv (gen_monthly s)))"
  by (simp add: monthlyRowView_def monthlyRow_def monthly_proj_def RV_def gv_def rowCost_view
      rowModels_view gen_monthly_def delta_of_def)

lemma buildMonthlyReport_views:
  "map_option (map monthlyRowView) (rows_of (buildMonthlyReport lc du options es)) =
     report_views lc (monthly_proj du options) fst (pricingSource options)
       (gviews (gfold False (accept_monthly du options) es))"
proof -
  let ?S = "monthlySummaries du options es"
  let ?G = "gfold False (accept_monthly du options) es"
  have sim: "map (apsnd gen_monthly) ?S = ?G" by (rule monthlySummaries_sim)
  have inv: "ginv ?G" by (rule ginv_gfold)
  have names: "map (\<lambda>(k, s). MonthlyUsageSummary.models s) ?S =
               map (\<lambda>s. gmodels (gen_monthly s)) (map snd ?S)"
    by (simp add: case_prod_unfold)
  have main: "map_option (map monthlyRowView)
           (rows_of (case resolveModels (pricingSource options)
                            (uniqueModels (map (\<lambda>s. gmodels (gen_monthly s)) (map snd ?S))) [] of
                       Inl e \<Rightarrow> Inl e
                     | Inr mp \<Rightarrow> Inr (map (monthlyRow du options mp)
                                        (array_sort (\<lambda>a b. lc (MonthlyUsageSummary.month a)
                                             (MonthlyUsageSummary.month b)) (map snd ?S)))))
        = report_views lc (monthly_proj du options) fst (pricingSource options)
            (map (\<lambda>s. gv (gen_monthly s)) (map snd ?S))"
  proof (rule report_views_eq[where gen = gen_monthly and view = monthlyRowView
        and row = "monthlyRow du options" and kf = MonthlyUsageSummary.month and h = fst
        and P = "monthly_proj du options" and lc = lc, OF refl])
    fix mp s assume "s \<in> set (map snd ?S)"
    then have "distinct (map fst (gmodels (gen_monthly s)))"
      by (rule snd_in_sim[OF sim inv])
    then show "monthlyRowView (monthlyRow du options mp s) =
               monthly_proj du options (RV (map_of mp) (gv (gen_monthly s)))"
      by (simp add: monthlyRow_view)
  next
    fix s show "MonthlyUsageSummary.month s = fst (gv (gen_monthly s))"
      by (simp add: gv_def gen_monthly_def)
  qed
  show ?thesis
    by (simp only: buildMonthlyReport_def Let_def names main gviews_sim[OF sim])
qed


lemma sessionRow_view:
  "distinct (map fst (SessionUsageSummary.models s)) \<Longrightarrow>
   sessionRowView (sessionRow mp s) = session_proj (RV (map_of mp) (gv (gen_session s)))"
  by (simp add: sessionRowView_def sessionRow_def session_proj_def RV_def gv_def rowCost_view
      rowModels_view gen_session_def delta_of_def Let_def)

lemma report_views_Nil: "report_views lc P h ps [] = Some []"
  by (simp add: report_views_def array_sort_Nil)

lemma buildSessionReport_views:
  "map_option (map sessionRowView) (rows_of (buildSessionReport lc du options es)) =
     report_views lc session_proj vlast (pricingSource options)
       (gviews (gfold True (accept_session du options) es))"
proof -
  let ?S = "sessionSummaries du options es"
  let ?G = "gfold True (accept_session du options) es"
  have sim: "map (apsnd gen_session) ?S = ?G" by (rule sessionSummaries_sim)
  have inv: "ginv ?G" by (rule ginv_gfold)
  show ?thesis
  proof (cases "?S = []")
    case True
    with sim have "?G = []" by simp
    with True show ?thesis
      by (simp add: buildSessionReport_def rows_of_def gviews_def report_views_Nil)
  next
    case False
    have names: "map (\<lambda>(k, s). SessionUsageSummary.models s) ?S =
               map (\<lambda>s. gmodels (gen_session s)) (map snd ?S)"
      by (simp add: case_prod_unfold)
    have main: "map_option (map sessionRowView)
           (rows_of (case resolveModels (pricingSource options)
                            (uniqueModels (map (\<lambda>s. gmodels (gen_session s)) (map snd ?S))) [] of
                       Inl e \<Rightarrow> Inl e
                     | Inr mp \<Rightarrow> Inr (map (sessionRow mp)
                                        (array_sort (\<lambda>a b. lc (lastTimestamp a) (lastTimestamp b))
                                           (map snd ?S)))))
        = report_views lc session_proj vlast (pricingSource options)
            (map (\<lambda>s. gv (gen_session s)) (map snd ?S))"
    proof (rule report_views_eq[where gen = gen_session and view = sessionRowView
        and row = sessionRow and kf = lastTimestamp and h = vlast
        and P = session_proj and lc = lc, OF refl])
      fix mp s assume "s \<in> set (map snd ?S)"
      then have "distinct (map fst (gmodels (gen_session s)))"
        by (rule snd_in_sim[OF sim inv])
      then show "sessionRowView (sessionRow mp s) =
               session_proj (RV (map_of mp) (gv (gen_session s)))"
        by (simp add: sessionRow_view)
    next
      fix s show "lastTimestamp s = vlast (gv (gen_session s))"
        by (simp add: gv_def gen_session_def vlast_def)
    qed
    from False have len: "(length ?S = 0) = False" by simp
    show ?thesis
      by (simp only: buildSessionReport_def Let_def names main gviews_sim[OF sim] len if_False)
  qed
qed

lemma report_views_perm:
  assumes "mset L = mset L'" "consistent_comparator lc" "tie_free lc (map h L)"
  shows "report_views lc P h ps L = report_views lc P h ps L'"
proof -
  from assms(1) have "set L = set L'" by (rule mset_eq_setD)
  moreover have "array_sort (\<lambda>a b. lc (h a) (h b)) L = array_sort (\<lambda>a b. lc (h a) (h b)) L'"
    using assms(2,1,3) by (rule array_sort_perm)
  ultimately show ?thesis by (simp add: report_views_def)
qed

lemma report_views_mset:
  assumes "mset L = mset L'"
  shows "map_option mset (report_views lc P h ps L) = map_option mset (report_views lc P h ps L')"
proof -
  from assms have "set L = set L'" by (rule mset_eq_setD)
  then show ?thesis using assms by (simp add: report_views_def Let_def mset_array_sort)
qed

lemma report_views_keys:
  assumes "report_views lc P h ps L = Some vs"
  shows "\<exists>pm. vs = map (\<lambda>v. P (RV pm v)) (array_sort (\<lambda>a b. lc (h a) (h b)) L)"
  using assms by (auto simp: report_views_def Let_def split: if_splits)

lemma vlast_vbump:
  "vlast (vbump True k n e None) = timestamp e"
  "vlast (vbump True k n e (Some v)) = max (vlast v) (timestamp e)"
  by (simp_all add: vbump_def vlast_def split: prod.splits)

lemma vlast_fold:
  "(fold (\<lambda>e. astep True (acc e) e) es Map.empty k = None
      \<longleftrightarrow> {e \<in> set es. \<exists>n. acc e = Some (k, n)} = {})
   \<and> (\<forall>v. fold (\<lambda>e. astep True (acc e) e) es Map.empty k = Some v \<longrightarrow>
          vlast v = Max (timestamp ` {e \<in> set es. \<exists>n. acc e = Some (k, n)}))"
proof (induction es rule: rev_induct)
  case Nil
  then show ?case by simp
next
  case (snoc x xs)
  let ?V = "fold (\<lambda>e. astep True (acc e) e) xs Map.empty"
  let ?A = "{e \<in> set xs. \<exists>n. acc e = Some (k, n)}"
  let ?A' = "{e \<in> set (xs @ [x]). \<exists>n. acc e = Some (k, n)}"
  have f: "fold (\<lambda>e. astep True (acc e) e) (xs @ [x]) Map.empty = astep True (acc x) x ?V"
    by simp
  show ?case
  proof (cases "\<exists>n. acc x = Some (k, n)")
    case False
    then have A: "?A' = ?A" by auto
    from False have "astep True (acc x) x ?V k = ?V k"
      by (cases "acc x") (auto simp: astep_def)
    with snoc show ?thesis by (simp only: f A, simp)
  next
    case True
    then obtain n where n: "acc x = Some (k, n)" by blast
    then have A: "?A' = insert x ?A" by auto
    have fin: "finite (timestamp ` ?A)" by simp
    have V': "astep True (acc x) x ?V k = Some (vbump True k n x (?V k))"
      using n by (simp add: astep_def)
    have "vlast (vbump True k n x (?V k)) = Max (timestamp ` insert x ?A)"
    proof (cases "?V k")
      case None
      with snoc have e: "?A = {}" by simp
      show ?thesis unfolding None e by (simp add: vlast_vbump)
    next
      case (Some v)
      with snoc have ne: "?A \<noteq> {}" and l: "vlast v = Max (timestamp ` ?A)" by simp_all
      from ne have "timestamp ` ?A \<noteq> {}" by simp
      with fin have "Max (insert (timestamp x) (timestamp ` ?A)) = max (timestamp x) (Max (timestamp ` ?A))"
        by (rule Max_insert)
      with Some l show ?thesis by (simp add: vlast_vbump max.commute)
    qed
    then show ?thesis by (simp only: f A V') simp
  qed
qed

lemma GV_Nil: "GV [] = Map.empty"
  by (simp add: GV_def fun_eq_iff)

lemma glast_max:
  assumes "(k, g) \<in> set (gfold True acc es)"
  shows "glast g = Max (timestamp ` {e \<in> set es. \<exists>n. acc e = Some (k, n)})"
proof -
  have "distinct (map fst (gfold True acc es))"
    using ginv_gfold[of True acc es] by (simp add: ginv_def)
  with assms have "map_of (gfold True acc es) k = Some g" by simp
  then have "GV (gfold True acc es) k = Some (gv g)" by (simp add: GV_def)
  moreover have "GV (gfold True acc es) = fold (\<lambda>e. astep True (acc e) e) es Map.empty"
    by (simp add: gfold_def GV_gfold_aux GV_Nil)
  ultimately have "fold (\<lambda>e. astep True (acc e) e) es Map.empty k = Some (gv g)"
    by (simp only:)
  with vlast_fold[of acc es k] have "vlast (gv g) = Max (timestamp ` {e \<in> set es. \<exists>n. acc e = Some (k, n)})"
    by blast
  then show ?thesis by (simp add: vlast_def gv_def)
qed

subsection \<open>The rows of a build that succeeds\<close>

lemma buildDailyReport_Inr:
  assumes "buildDailyReport lc du options es = Inr rows"
  shows "\<exists>mp. resolveModels (pricingSource options)
                 (uniqueModels (map (\<lambda>s. DailyUsageSummary.models s)
                    (map snd (dailySummaries du options es)))) [] = Inr mp
             \<and> rows = map (dailyRow du options mp)
                        (array_sort (\<lambda>a b. lc (DailyUsageSummary.date a) (DailyUsageSummary.date b))
                           (map snd (dailySummaries du options es)))"
  using assms
  by (auto simp: buildDailyReport_def Let_def case_prod_unfold comp_def split: sum.splits)

lemma buildMonthlyReport_Inr:
  assumes "buildMonthlyReport lc du options es = Inr rows"
  shows "\<exists>mp. resolveModels (pricingSource options)
                 (uniqueModels (map (\<lambda>s. MonthlyUsageSummary.models s)
                    (map snd (monthlySummaries du options es)))) [] = Inr mp
             \<and> rows = map (monthlyRow du options mp)
                        (array_sort (\<lambda>a b. lc (MonthlyUsageSummary.month a)
                                       (MonthlyUsageSummary.month b))
                           (map snd (monthlySummaries du options es)))"
  using assms
  by (auto simp: buildMonthlyReport_def Let_def case_prod_unfold comp_def split: sum.splits)

lemma buildSessionReport_Inr:
  assumes "buildSessionReport lc du options es = Inr rows"
  shows "\<exists>mp. resolveModels (pricingSource options)
                 (uniqueModels (map (\<lambda>s. SessionUsageSummary.models s)
                    (map snd (sessionSummaries du options es)))) [] = Inr mp
             \<and> rows = map (sessionRow mp)
                        (array_sort (\<lambda>a b. lc (lastTimestamp a) (lastTimestamp b))
                           (map snd (sessionSummaries du options es)))"
proof (cases "sessionSummaries du options es = []")
  case True
  with assms have "rows = []" by (simp add: buildSessionReport_def)
  with True show ?thesis by (simp add: uniqueModels_def array_sort_Nil)
next
  case False
  with assms show ?thesis
    by (auto simp: buildSessionReport_def Let_def case_prod_unfold comp_def split: sum.splits)
qed

lemma sessionRow_fields [simp]:
  "SessionReportRow.sessionId (sessionRow mp s) = SessionUsageSummary.sessionId s"
  "lastActivity (sessionRow mp s) = lastTimestamp s"
  by (simp_all add: sessionRow_def Let_def)

subsection \<open>Reordering the events\<close>

lemma session_proj_fields:
  "fst (session_proj (RV pm v)) = fst v"
  "fst (snd (session_proj (RV pm v))) = vlast v"
  by (simp_all add: session_proj_def RV_def vlast_def split: prod.splits)

lemma sessionRowView_fields:
  "fst (sessionRowView r) = SessionReportRow.sessionId r"
  "fst (snd (sessionRowView r)) = lastActivity r"
  by (simp_all add: sessionRowView_def)

lemma tie_free_mset: "mset ks = mset ks' \<Longrightarrow> tie_free c ks \<longleftrightarrow> tie_free c ks'"
  unfolding tie_free_def by (metis mset_eq_imp_distinct_iff mset_eq_setD)

lemma session_rows_views:
  assumes "buildSessionReport lc du options es = Inr rows"
  shows "\<exists>pm. map sessionRowView rows =
           map (\<lambda>v. session_proj (RV pm v))
             (array_sort (\<lambda>a b. lc (vlast a) (vlast b))
                (gviews (gfold True (accept_session du options) es)))"
proof -
  from assms have "report_views lc session_proj vlast (pricingSource options)
       (gviews (gfold True (accept_session du options) es)) = Some (map sessionRowView rows)"
    using buildSessionReport_views[of lc du options es] by (simp add: rows_of_def)
  then show ?thesis by (rule report_views_keys)
qed

lemma session_rows_last:
  assumes "buildSessionReport lc du options es = Inr rows"
  shows "map lastActivity rows =
           map vlast (array_sort (\<lambda>a b. lc (vlast a) (vlast b))
                        (gviews (gfold True (accept_session du options) es)))"
proof -
  from session_rows_views[OF assms] obtain pm where
    v: "map sessionRowView rows =
           map (\<lambda>v. session_proj (RV pm v))
             (array_sort (\<lambda>a b. lc (vlast a) (vlast b))
                (gviews (gfold True (accept_session du options) es)))" by blast
  have "map lastActivity rows = map (\<lambda>x. fst (snd x)) (map sessionRowView rows)"
    by (simp add: sessionRowView_fields)
  also have "\<dots> = map vlast (array_sort (\<lambda>a b. lc (vlast a) (vlast b))
                                 (gviews (gfold True (accept_session du options) es)))"
    unfolding v by (simp add: session_proj_fields)
  finally show ?thesis .
qed

lemma session_row_origin:
  assumes "buildSessionReport lc du options es = Inr rows" "r \<in> set rows"
  shows "\<exists>g. (SessionReportRow.sessionId r, g) \<in> set (gfold True (accept_session du options) es)
             \<and> lastActivity r = glast g"
proof -
  let ?G = "gfold True (accept_session du options) es"
  from session_rows_views[OF assms(1)] obtain pm where
    v: "map sessionRowView rows =
           map (\<lambda>v. session_proj (RV pm v))
             (array_sort (\<lambda>a b. lc (vlast a) (vlast b)) (gviews ?G))" by blast
  from assms(2) have "sessionRowView r \<in> set (map sessionRowView rows)" by simp
  then obtain w where w: "w \<in> set (gviews ?G)" "sessionRowView r = session_proj (RV pm w)"
    unfolding v by (auto simp: set_array_sort)
  from w(1) obtain k g where kg: "(k, g) \<in> set ?G" "w = gv g"
    by (auto simp: gviews_def)
  have inv: "ginv ?G" by (rule ginv_gfold)
  with kg have gk: "gkey g = k" by (auto simp: ginv_def)
  have "SessionReportRow.sessionId r = fst (sessionRowView r)"
    by (simp add: sessionRowView_fields)
  also have "\<dots> = k" using w(2) kg gk by (simp add: session_proj_fields gv_def)
  finally have sid: "SessionReportRow.sessionId r = k" .
  have "lastActivity r = fst (snd (sessionRowView r))"
    by (simp add: sessionRowView_fields)
  also have "\<dots> = glast g" using w(2) kg by (simp add: session_proj_fields gv_def vlast_def)
  finally have "lastActivity r = glast g" .
  with sid kg show ?thesis by blast
qed

lemma acceptedKeys_snoc:
  "acceptedKeys acc (es @ [e]) =
     acceptedKeys acc es @ (case acc e of None \<Rightarrow> [] | Some (k, n) \<Rightarrow> [k])"
  by (cases "acc e") (auto simp: acceptedKeys_def List.map_filter_def)

lemma gstep_keys:
  "map fst (gstep track acc e G) =
     (case acc of
        None \<Rightarrow> map fst G
      | Some (k, n) \<Rightarrow> if k \<in> set (map fst G) then map fst G else map fst G @ [k])"
  by (cases acc) (auto simp: gstep_def Let_def AList.update_keys)

lemma gfold_keys: "map fst (gfold track acc es) = firstSeen (acceptedKeys acc es)"
proof (induction es rule: rev_induct)
  case Nil
  then show ?case by (simp add: gfold_def acceptedKeys_def List.map_filter_def)
next
  case (snoc e es)
  have f: "gfold track acc (es @ [e]) = gstep track (acc e) e (gfold track acc es)"
    by (simp add: gfold_def)
  have s: "set (map fst (gfold track acc es)) = set (acceptedKeys acc es)"
    by (simp only: snoc firstSeen_set)
  show ?case
  proof (cases "acc e")
    case None
    then show ?thesis
      by (simp only: f gstep_keys acceptedKeys_snoc snoc option.case append_Nil2)
  next
    case (Some kn)
    obtain k n where kn: "kn = (k, n)" by (cases kn)
    have "map fst (gfold track acc (es @ [e])) =
            (if k \<in> set (acceptedKeys acc es) then firstSeen (acceptedKeys acc es)
             else firstSeen (acceptedKeys acc es) @ [k])"
      unfolding f gstep_keys Some kn using s snoc by simp
    also have "\<dots> = firstSeen (acceptedKeys acc es @ [k])"
      by (simp only: firstSeen_snoc)
    also have "\<dots> = firstSeen (acceptedKeys acc (es @ [e]))"
      by (simp add: acceptedKeys_snoc Some kn)
    finally show ?thesis .
  qed
qed

lemma keyed_filter:
  assumes d: "distinct (map fst S)" and f: "\<forall>(k, s) \<in> set S. f s = k"
  shows "filter (\<lambda>k. \<exists>s \<in> snd ` set S. f s = k \<and> P s) (map fst S) =
           map f (filter P (map snd S))"
proof -
  have e: "(\<exists>s' \<in> snd ` set S. f s' = fst x \<and> P s') \<longleftrightarrow> P (snd x)" if x: "x \<in> set S" for x
  proof
    assume "\<exists>s' \<in> snd ` set S. f s' = fst x \<and> P s'"
    then obtain y where y: "y \<in> set S" "f (snd y) = fst x" "P (snd y)" by auto
    from f y(1) have "f (snd y) = fst y" by auto
    with y(2) have "fst y = fst x" by simp
    with d x y(1) have "y = x" by (meson distinct_map inj_onD)
    with y(3) show "P (snd x)" by simp
  next
    assume "P (snd x)"
    moreover from f x have "f (snd x) = fst x" by auto
    ultimately show "\<exists>s' \<in> snd ` set S. f s' = fst x \<and> P s'" using x by auto
  qed
  have "filter (\<lambda>k. \<exists>s \<in> snd ` set S. f s = k \<and> P s) (map fst S) =
          map fst (filter (\<lambda>x. \<exists>s \<in> snd ` set S. f s = fst x \<and> P s) S)"
    by (simp add: filter_map comp_def)
  also have "\<dots> = map fst (filter (\<lambda>x. P (snd x)) S)"
    by (rule arg_cong[where f = "map fst"], rule filter_cong[OF refl], rule e)
  also have "\<dots> = map (\<lambda>x. f (snd x)) (filter (\<lambda>x. P (snd x)) S)"
    using f by (intro map_cong) auto
  also have "\<dots> = map f (filter P (map snd S))"
    by (simp add: filter_map comp_def)
  finally show ?thesis .
qed

lemma session_keys:
  "map fst (sessionSummaries du options es) =
     firstSeen (acceptedKeys (accept_session du options) es)"
proof -
  have "map fst (sessionSummaries du options es) =
          map fst (map (apsnd gen_session) (sessionSummaries du options es))"
    by (simp add: comp_def)
  then show ?thesis
    by (simp only: sessionSummaries_sim gfold_keys)
qed

lemma session_summaries_keyed:
  "distinct (map fst (sessionSummaries du options es))
   \<and> (\<forall>(k, s) \<in> set (sessionSummaries du options es). SessionUsageSummary.sessionId s = k)"
proof -
  let ?S = "sessionSummaries du options es"
  have inv: "ginv (map (apsnd gen_session) ?S)"
    by (simp only: sessionSummaries_sim ginv_gfold)
  then have "distinct (map fst ?S)" by (simp add: ginv_def comp_def)
  moreover have "SessionUsageSummary.sessionId s = k" if "(k, s) \<in> set ?S" for k s
  proof -
    from that have "(k, gen_session s) \<in> set (map (apsnd gen_session) ?S)" by force
    with inv have "gkey (gen_session s) = k" by (auto simp: ginv_def)
    then show ?thesis by (simp add: gen_session_def)
  qed
  ultimately show ?thesis by auto
qed

lemma session_tie_order:
  assumes c: "consistent_comparator lc"
    and b: "buildSessionReport lc du options es = Inr rows"
  shows "map SessionReportRow.sessionId (filter (\<lambda>r. lc (lastActivity r) t = 0) rows) =
           filter (\<lambda>k. \<exists>r \<in> set rows. SessionReportRow.sessionId r = k \<and> lc (lastActivity r) t = 0)
             (firstSeen (acceptedKeys (accept_session du options) es))"
proof -
  let ?S = "sessionSummaries du options es"
  let ?c = "\<lambda>a b. lc (lastTimestamp a) (lastTimestamp b)"
  let ?P = "\<lambda>s. lc (lastTimestamp s) t = 0"
  from buildSessionReport_Inr[OF b] obtain mp where
    rows: "rows = map (sessionRow mp) (array_sort ?c (map snd ?S))" by blast
  have le: "lc (lastTimestamp a) (lastTimestamp x) \<le> 0" if "?P a" "?P x" for a x
  proof -
    from that(2) have "lc t (lastTimestamp x) = 0" by (simp only: consistent_sym[OF c])
    with that(1) consistent_trans[OF c, of "lastTimestamp a" t "lastTimestamp x"]
    show ?thesis by simp
  qed
  have stab: "filter ?P (array_sort ?c (map snd ?S)) = filter ?P (map snd ?S)"
    by (rule filter_array_sort) (rule le)
  have L: "map SessionReportRow.sessionId (filter (\<lambda>r. lc (lastActivity r) t = 0) rows) =
           map SessionUsageSummary.sessionId (filter ?P (map snd ?S))"
    unfolding rows by (simp add: filter_map comp_def stab)
  have Q: "(\<exists>r \<in> set rows. SessionReportRow.sessionId r = k \<and> lc (lastActivity r) t = 0) \<longleftrightarrow>
           (\<exists>s \<in> snd ` set ?S. SessionUsageSummary.sessionId s = k \<and> ?P s)" for k
    unfolding rows by (auto simp: set_array_sort)
  from session_summaries_keyed[of du options es]
  have "filter (\<lambda>k. \<exists>s \<in> snd ` set ?S. SessionUsageSummary.sessionId s = k \<and> ?P s) (map fst ?S) =
          map SessionUsageSummary.sessionId (filter ?P (map snd ?S))"
    by (intro keyed_filter) blast+
  then show ?thesis
    by (simp only: L Q session_keys)
qed

lemma summaries_keys_views:
  assumes "map (apsnd gen) S = gfold track acc es"
  shows "map fst (gviews (gfold track acc es)) = map fst S"
proof -
  have "map fst (gviews (gfold track acc es)) = map fst (gfold track acc es)"
    by (rule gviews_keys) (rule ginv_gfold)
  also have "\<dots> = map fst S"
    unfolding assms[symmetric] by (simp add: comp_def)
  finally show ?thesis .
qed

text \<open>
  C4 (amended).  Let two event lists be permutations of each other, and let
  \<open>localeCompare\<close> be a consistent comparison function.  The daily builds then both fail
  or both return, and return the same rows as a multiset: the same groups, each with the
  same date, token sums and cost and the same per-model entries (the entries of a row as
  a mapping from model name to usage).  When \<open>localeCompare\<close> ties no two day keys of the
  groups, the rows also come in the same order.  Likewise the monthly builds.  The session
  builds return the same rows as a multiset, and in the same order when no two rows tie
  in their last activity.  The rows of a session build are sorted by last activity as
  \<open>localeCompare\<close> orders it; rows whose last activities tie stand in the order in which
  their sessions first occur among the accumulated events of the input.  The last
  activity of a session row is the greatest timestamp, in code-unit order, among the
  events accumulated for its session.
\<close>

theorem reports_permutation:
  assumes "mset events = mset events'" and "consistent_comparator lc"
  shows
    "map_option (\<lambda>rows. mset (map dailyRowView rows))
         (rows_of (buildDailyReport lc du options events)) =
       map_option (\<lambda>rows. mset (map dailyRowView rows))
         (rows_of (buildDailyReport lc du options events'))
     \<and> (tie_free lc (map fst (dailySummaries du options events)) \<longrightarrow>
          map_option (map dailyRowView) (rows_of (buildDailyReport lc du options events)) =
            map_option (map dailyRowView) (rows_of (buildDailyReport lc du options events')))
     \<and> map_option (\<lambda>rows. mset (map monthlyRowView rows))
           (rows_of (buildMonthlyReport lc du options events)) =
         map_option (\<lambda>rows. mset (map monthlyRowView rows))
           (rows_of (buildMonthlyReport lc du options events'))
     \<and> (tie_free lc (map fst (monthlySummaries du options events)) \<longrightarrow>
          map_option (map monthlyRowView) (rows_of (buildMonthlyReport lc du options events)) =
            map_option (map monthlyRowView) (rows_of (buildMonthlyReport lc du options events')))
     \<and> map_option (\<lambda>rows. mset (map sessionRowView rows))
           (rows_of (buildSessionReport lc du options events)) =
         map_option (\<lambda>rows. mset (map sessionRowView rows))
           (rows_of (buildSessionReport lc du options events'))
     \<and> (\<forall>rows rows'.
           buildSessionReport lc du options events = Inr rows
           \<and> buildSessionReport lc du options events' = Inr rows'
           \<and> tie_free lc (map lastActivity rows) \<longrightarrow>
           map sessionRowView rows = map sessionRowView rows')
     \<and> (\<forall>rows. buildSessionReport lc du options events = Inr rows \<longrightarrow>
           sorted_wrt (\<lambda>a b. lc (lastActivity a) (lastActivity b) \<le> 0) rows
           \<and> (\<forall>t. map SessionReportRow.sessionId
                      (filter (\<lambda>r. lc (lastActivity r) t = 0) rows) =
                    filter (\<lambda>k. \<exists>r \<in> set rows. SessionReportRow.sessionId r = k
                                  \<and> lc (lastActivity r) t = 0)
                      (firstSeen (acceptedKeys (accept_session du options) events)))
           \<and> (\<forall>r \<in> set rows.
                 lastActivity r =
                   Max (timestamp `
                     {e \<in> set events.
                      \<exists>n. accept_session du options e =
                             Some (SessionReportRow.sessionId r, n)})))"
proof -
  note m = assms(1) and c = assms(2)
  have o: "\<And>V X. map_option (\<lambda>rows. mset (map V rows)) X =
            map_option mset (map_option (map V) X)"
    by (simp add: option.map_comp comp_def)
  have d1: "map_option (\<lambda>rows. mset (map dailyRowView rows))
         (rows_of (buildDailyReport lc du options events)) =
       map_option (\<lambda>rows. mset (map dailyRowView rows))
         (rows_of (buildDailyReport lc du options events'))"
    unfolding o buildDailyReport_views
    by (rule report_views_mset) (rule mset_gviews_perm[OF m])
  have d2: "tie_free lc (map fst (dailySummaries du options events)) \<longrightarrow>
          map_option (map dailyRowView) (rows_of (buildDailyReport lc du options events)) =
            map_option (map dailyRowView) (rows_of (buildDailyReport lc du options events'))"
  proof
    assume "tie_free lc (map fst (dailySummaries du options events))"
    then have t: "tie_free lc (map fst (gviews (gfold False (accept_daily du options) events)))"
      by (simp only: summaries_keys_views[OF dailySummaries_sim])
    show "map_option (map dailyRowView) (rows_of (buildDailyReport lc du options events)) =
            map_option (map dailyRowView) (rows_of (buildDailyReport lc du options events'))"
      unfolding buildDailyReport_views
      using mset_gviews_perm[OF m] c t by (rule report_views_perm)
  qed
  have m1: "map_option (\<lambda>rows. mset (map monthlyRowView rows))
           (rows_of (buildMonthlyReport lc du options events)) =
         map_option (\<lambda>rows. mset (map monthlyRowView rows))
           (rows_of (buildMonthlyReport lc du options events'))"
    unfolding o buildMonthlyReport_views
    by (rule report_views_mset) (rule mset_gviews_perm[OF m])
  have m2: "tie_free lc (map fst (monthlySummaries du options events)) \<longrightarrow>
          map_option (map monthlyRowView) (rows_of (buildMonthlyReport lc du options events)) =
            map_option (map monthlyRowView) (rows_of (buildMonthlyReport lc du options events'))"
  proof
    assume "tie_free lc (map fst (monthlySummaries du options events))"
    then have t: "tie_free lc (map fst (gviews (gfold False (accept_monthly du options) events)))"
      by (simp only: summaries_keys_views[OF monthlySummaries_sim])
    show "map_option (map monthlyRowView) (rows_of (buildMonthlyReport lc du options events)) =
            map_option (map monthlyRowView) (rows_of (buildMonthlyReport lc du options events'))"
      unfolding buildMonthlyReport_views
      using mset_gviews_perm[OF m] c t by (rule report_views_perm)
  qed
  have s1: "map_option (\<lambda>rows. mset (map sessionRowView rows))
           (rows_of (buildSessionReport lc du options events)) =
         map_option (\<lambda>rows. mset (map sessionRowView rows))
           (rows_of (buildSessionReport lc du options events'))"
    unfolding o buildSessionReport_views
    by (rule report_views_mset) (rule mset_gviews_perm[OF m])
  have s2: "\<forall>rows rows'.
           buildSessionReport lc du options events = Inr rows
           \<and> buildSessionReport lc du options events' = Inr rows'
           \<and> tie_free lc (map lastActivity rows) \<longrightarrow>
           map sessionRowView rows = map sessionRowView rows'"
  proof (intro allI impI)
    fix rows rows'
    assume a: "buildSessionReport lc du options events = Inr rows
           \<and> buildSessionReport lc du options events' = Inr rows'
           \<and> tie_free lc (map lastActivity rows)"
    let ?L = "gviews (gfold True (accept_session du options) events)"
    let ?L' = "gviews (gfold True (accept_session du options) events')"
    from a have b1: "buildSessionReport lc du options events = Inr rows"
      and b3: "tie_free lc (map lastActivity rows)" by blast+
    have ms: "mset (map vlast (array_sort (\<lambda>a b. lc (vlast a) (vlast b)) ?L)) =
              mset (map vlast ?L)"
      by (simp add: mset_array_sort)
    from b3 have t: "tie_free lc (map vlast ?L)"
      unfolding session_rows_last[OF b1] tie_free_mset[OF ms] .
    have "report_views lc session_proj vlast (pricingSource options) ?L =
          report_views lc session_proj vlast (pricingSource options) ?L'"
      using mset_gviews_perm[OF m] c t by (rule report_views_perm)
    then have "map_option (map sessionRowView) (rows_of (buildSessionReport lc du options events)) =
               map_option (map sessionRowView) (rows_of (buildSessionReport lc du options events'))"
      by (simp only: buildSessionReport_views)
    with a show "map sessionRowView rows = map sessionRowView rows'"
      by (simp add: rows_of_def)
  qed
  have s3: "\<forall>rows. buildSessionReport lc du options events = Inr rows \<longrightarrow>
           sorted_wrt (\<lambda>a b. lc (lastActivity a) (lastActivity b) \<le> 0) rows
           \<and> (\<forall>t. map SessionReportRow.sessionId
                      (filter (\<lambda>r. lc (lastActivity r) t = 0) rows) =
                    filter (\<lambda>k. \<exists>r \<in> set rows. SessionReportRow.sessionId r = k
                                  \<and> lc (lastActivity r) t = 0)
                      (firstSeen (acceptedKeys (accept_session du options) events)))
           \<and> (\<forall>r \<in> set rows.
                 lastActivity r =
                   Max (timestamp `
                     {e \<in> set events.
                      \<exists>n. accept_session du options e =
                             Some (SessionReportRow.sessionId r, n)}))"
  proof (intro allI impI conjI ballI)
    fix rows assume a: "buildSessionReport lc du options events = Inr rows"
    from buildSessionReport_Inr[OF a] obtain mp where
      rows: "rows = map (sessionRow mp)
               (array_sort (\<lambda>a b. lc (lastTimestamp a) (lastTimestamp b))
                  (map snd (sessionSummaries du options events)))" by blast
    have "sorted_wrt (\<lambda>a b. lc (lastTimestamp a) (lastTimestamp b) \<le> 0)
            (array_sort (\<lambda>a b. lc (lastTimestamp a) (lastTimestamp b))
               (map snd (sessionSummaries du options events)))"
      by (rule sorted_array_sort) (rule consistent_comp[OF c])
    then show "sorted_wrt (\<lambda>a b. lc (lastActivity a) (lastActivity b) \<le> 0) rows"
      unfolding rows by (simp add: sorted_wrt_map)
  next
    fix rows t assume a: "buildSessionReport lc du options events = Inr rows"
    show "map SessionReportRow.sessionId (filter (\<lambda>r. lc (lastActivity r) t = 0) rows) =
            filter (\<lambda>k. \<exists>r \<in> set rows. SessionReportRow.sessionId r = k
                          \<and> lc (lastActivity r) t = 0)
              (firstSeen (acceptedKeys (accept_session du options) events))"
      using c a by (rule session_tie_order)
  next
    fix rows r
    assume a: "buildSessionReport lc du options events = Inr rows" and r: "r \<in> set rows"
    from session_row_origin[OF a r] obtain g where
      "(SessionReportRow.sessionId r, g) \<in> set (gfold True (accept_session du options) events)"
      "lastActivity r = glast g" by blast
    then show "lastActivity r =
                   Max (timestamp `
                     {e \<in> set events.
                      \<exists>n. accept_session du options e =
                             Some (SessionReportRow.sessionId r, n)})"
      by (simp add: glast_max)
  qed
  from d1 d2 m1 m2 s1 s2 s3 show ?thesis by (intro conjI)
qed

theorem reports_permutation_witness:
  "mset [event1, event2, event3] = mset [event3, event2, event1]
   \<and> consistent_comparator codeUnitCompare
   \<and> tie_free codeUnitCompare
        (map fst (dailySummaries utcDateUtils (stubOptions None None) [event1, event2, event3]))
   \<and> map_option (map dailyRowView)
        (rows_of (buildDailyReport codeUnitCompare utcDateUtils (stubOptions None None)
                    [event1, event2, event3])) =
      map_option (map dailyRowView)
        (rows_of (buildDailyReport codeUnitCompare utcDateUtils (stubOptions None None)
                    [event3, event2, event1]))
   \<and> map_option (map lastActivity)
        (rows_of (buildSessionReport codeUnitCompare utcDateUtils (stubOptions None None)
                    [event1, event2, event3]))
       = Some [''2025-09-11T05:00:00.000Z'', ''2025-09-12T01:00:00.000Z'']
   \<and> map_option (map sessionRowView)
        (rows_of (buildSessionReport codeUnitCompare utcDateUtils (stubOptions None None)
                    [event1, event2, event3])) =
      map_option (map sessionRowView)
        (rows_of (buildSessionReport codeUnitCompare utcDateUtils (stubOptions None None)
                    [event3, event2, event1]))"
proof -
  let ?o = "stubOptions None None"
  have m: "mset [event1, event2, event3] = mset [event3, event2, event1]"
    by simp
  have c: "consistent_comparator codeUnitCompare"
    by (rule consistent_codeUnitCompare)
  note t = reports_permutation[OF m c, of utcDateUtils ?o]
  have k: "tie_free codeUnitCompare
             (map fst (dailySummaries utcDateUtils ?o [event1, event2, event3]))"
    by code_simp
  from t[THEN conjunct2, THEN conjunct1] k
  have dly: "map_option (map dailyRowView)
        (rows_of (buildDailyReport codeUnitCompare utcDateUtils ?o [event1, event2, event3])) =
      map_option (map dailyRowView)
        (rows_of (buildDailyReport codeUnitCompare utcDateUtils ?o [event3, event2, event1]))"
    by (rule mp)
  have l: "map_option (map lastActivity)
        (rows_of (buildSessionReport codeUnitCompare utcDateUtils ?o [event1, event2, event3]))
       = Some [''2025-09-11T05:00:00.000Z'', ''2025-09-12T01:00:00.000Z'']"
    by code_simp
  then obtain rows where rows:
    "buildSessionReport codeUnitCompare utcDateUtils ?o [event1, event2, event3] = Inr rows"
    "map lastActivity rows = [''2025-09-11T05:00:00.000Z'', ''2025-09-12T01:00:00.000Z'']"
    by (auto simp: rows_of_def split: sum.splits)
  have "rows_of (buildSessionReport codeUnitCompare utcDateUtils ?o [event3, event2, event1])
          \<noteq> None"
    by code_simp
  then obtain rows' where rows':
    "buildSessionReport codeUnitCompare utcDateUtils ?o [event3, event2, event1] = Inr rows'"
    by (auto simp: rows_of_def split: sum.splits)
  have "tie_free codeUnitCompare
          [''2025-09-11T05:00:00.000Z'', ''2025-09-12T01:00:00.000Z'']"
    by code_simp
  then have d: "tie_free codeUnitCompare (map lastActivity rows)"
    by (simp only: rows(2))
  from t[THEN conjunct2, THEN conjunct2, THEN conjunct2, THEN conjunct2, THEN conjunct2,
         THEN conjunct1, rule_format, of rows rows'] rows(1) rows' d
  have "map sessionRowView rows = map sessionRowView rows'"
    by blast
  then have s: "map_option (map sessionRowView)
        (rows_of (buildSessionReport codeUnitCompare utcDateUtils ?o [event1, event2, event3])) =
      map_option (map sessionRowView)
        (rows_of (buildSessionReport codeUnitCompare utcDateUtils ?o [event3, event2, event1]))"
    by (simp add: rows(1) rows' rows_of_def)
  from m c k dly l s show ?thesis by (intro conjI)
qed

text \<open>
  The claim C4 as worded fails for the session report: two sessions whose last
  timestamps are equal tie under every consistent comparison function, and their rows
  come out in the order of their first events.
\<close>

theorem reports_permutation_counterexample:
  "mset [event3, event4] = mset [event4, event3]
   \<and> map_option (map SessionReportRow.sessionId)
        (rows_of (buildSessionReport codeUnitCompare utcDateUtils (stubOptions None None)
                    [event3, event4]))
       = Some [''session-2'', ''session-3'']
   \<and> map_option (map SessionReportRow.sessionId)
        (rows_of (buildSessionReport codeUnitCompare utcDateUtils (stubOptions None None)
                    [event4, event3]))
       = Some [''session-3'', ''session-2'']"
proof (intro conjI)
  show "mset [event3, event4] = mset [event4, event3]" by simp
  show "map_option (map SessionReportRow.sessionId)
        (rows_of (buildSessionReport codeUnitCompare utcDateUtils (stubOptions None None)
                    [event3, event4]))
       = Some [''session-2'', ''session-3'']"
    by code_simp
  show "map_option (map SessionReportRow.sessionId)
        (rows_of (buildSessionReport codeUnitCompare utcDateUtils (stubOptions None None)
                    [event4, event3]))
       = Some [''session-3'', ''session-2'']"
    by code_simp
qed

subsection \<open>Which events are accumulated\<close>







lemma gdelta_gen [simp]:
  "gdelta (gen_daily d) = delta_of d"
  "gdelta (gen_monthly m) = delta_of m"
  "gdelta (gen_session s) = delta_of s"
  by (simp_all add: gen_daily_def gen_monthly_def gen_session_def)



subsection \<open>Order of the rows and the split of the session id\<close>

lemma lastIndexOf_snoc:
  "lastIndexOf (s @ [a]) c = (if a = c then int (length s) else lastIndexOf s c)"
proof -
  have "find (\<lambda>i. (s @ [a]) ! i = c) (rev [0..<length s]) =
        find (\<lambda>i. s ! i = c) (rev [0..<length s])"
    by (rule find_cong) (auto simp: nth_append)
  then show ?thesis
    by (simp add: lastIndexOf_def)
qed

lemma lastIndexOf_Nil: "lastIndexOf [] c = - 1"
  by (simp add: lastIndexOf_def)

lemma lastIndexOf_absent: "c \<notin> set s \<Longrightarrow> lastIndexOf s c = - 1"
  by (induction s rule: rev_induct) (auto simp: lastIndexOf_Nil lastIndexOf_snoc)

lemma lastIndexOf_present:
  "c \<in> set s \<Longrightarrow>
   \<exists>i. lastIndexOf s c = int i \<and> i < length s
       \<and> s = take i s @ c # drop (Suc i) s \<and> c \<notin> set (drop (Suc i) s)"
proof (induction s rule: rev_induct)
  case Nil
  then show ?case by simp
next
  case (snoc a s)
  show ?case
  proof (cases "a = c")
    case True
    then have "lastIndexOf (s @ [a]) c = int (length s)"
      by (simp add: lastIndexOf_snoc)
    with True show ?thesis
      by (intro exI[of _ "length s"]) simp
  next
    case False
    with snoc.prems have "c \<in> set s" by simp
    from snoc.IH[OF this] obtain i where i: "lastIndexOf s c = int i" "i < length s"
      "s = take i s @ c # drop (Suc i) s" "c \<notin> set (drop (Suc i) s)" by blast
    have l: "lastIndexOf (s @ [a]) c = int i"
      using False i(1) by (simp add: lastIndexOf_snoc)
    have t: "take i (s @ [a]) = take i s" using i(2) by simp
    have d: "drop (Suc i) (s @ [a]) = drop (Suc i) s @ [a]" using i(2) by simp
    have "s @ [a] = (take i s @ c # drop (Suc i) s) @ [a]"
      using i(3) by simp
    then have e: "s @ [a] = take i (s @ [a]) @ c # drop (Suc i) (s @ [a])"
      unfolding t d by simp
    have n: "c \<notin> set (drop (Suc i) (s @ [a]))"
      unfolding d using i(4) False by simp
    from l i(2) e n show ?thesis
      by (intro exI[of _ i]) simp
  qed
qed

lemma sessionRow_split:
  "(CHR ''/'' \<notin> set (SessionUsageSummary.sessionId s) \<longrightarrow>
      directory (sessionRow mp s) = [] \<and> sessionFile (sessionRow mp s) = SessionUsageSummary.sessionId s)
   \<and> (CHR ''/'' \<in> set (SessionUsageSummary.sessionId s) \<longrightarrow>
      SessionUsageSummary.sessionId s =
        directory (sessionRow mp s) @ ''/'' @ sessionFile (sessionRow mp s)
      \<and> CHR ''/'' \<notin> set (sessionFile (sessionRow mp s)))"
proof (intro conjI impI)
  assume a: "CHR ''/'' \<notin> set (SessionUsageSummary.sessionId s)"
  show "directory (sessionRow mp s) = []"
    "sessionFile (sessionRow mp s) = SessionUsageSummary.sessionId s"
    by (simp_all add: sessionRow_def Let_def lastIndexOf_absent[OF a])
next
  assume a: "CHR ''/'' \<in> set (SessionUsageSummary.sessionId s)"
  from lastIndexOf_present[OF a] obtain i where
    i: "lastIndexOf (SessionUsageSummary.sessionId s) CHR ''/'' = int i"
    "SessionUsageSummary.sessionId s =
       take i (SessionUsageSummary.sessionId s) @
       CHR ''/'' # drop (Suc i) (SessionUsageSummary.sessionId s)"
    "CHR ''/'' \<notin> set (drop (Suc i) (SessionUsageSummary.sessionId s))" by blast
  have n: "nat (int i + 1) = Suc i" by simp
  have dir: "directory (sessionRow mp s) = take i (SessionUsageSummary.sessionId s)"
    by (simp add: sessionRow_def Let_def i(1))
  have fil: "sessionFile (sessionRow mp s) = drop (Suc i) (SessionUsageSummary.sessionId s)"
    by (simp add: sessionRow_def Let_def i(1) n)
  show "SessionUsageSummary.sessionId s =
        directory (sessionRow mp s) @ ''/'' @ sessionFile (sessionRow mp s)"
    unfolding dir fil using i(2) by simp
  show "CHR ''/'' \<notin> set (sessionFile (sessionRow mp s))"
    unfolding fil by (rule i(3))
qed

lemma sorted_by_agreeing:
  assumes "sorted_wrt (\<lambda>a b. c (f a) (f b) \<le> 0) xs"
    and "\<forall>a \<in> set xs. \<forall>b \<in> set xs. (c (f a) (f b) \<le> 0) = (f a \<le> f b)"
  shows "sorted (map f xs)"
proof -
  have "sorted_wrt (\<lambda>a b. f a \<le> f b) xs"
    using assms(1)
  proof (rule sorted_wrt_mono_rel[rotated])
    fix x y assume "x \<in> set xs" "y \<in> set xs" "c (f x) (f y) \<le> 0"
    with assms(2) show "f x \<le> f y" by blast
  qed
  then show ?thesis by (simp add: sorted_map)
qed

text \<open>
  C9.  Let \<open>localeCompare\<close> be a consistent comparison function.  The rows of the daily
  and of the monthly report are those of the summaries, arranged ascending by day key and
  by month key as \<open>localeCompare\<close> orders the keys; the rows of the session report are
  arranged ascending by last activity as \<open>localeCompare\<close> orders it.  Where
  \<open>localeCompare\<close> orders the keys of a report as the code-unit order does (as it does on
  keys of one fixed format), the rows are ascending in the code-unit order of the keys.
  A session row whose id has no \<open>/\<close> has an empty directory and the id as file;
  otherwise the id is directory, \<open>/\<close>, file, and the file has no \<open>/\<close>.
\<close>

theorem report_rows_sorted:
  assumes "consistent_comparator lc"
  shows
  "(\<forall>rows. buildDailyReport lc du options es = Inr rows \<longrightarrow>
      (\<exists>mp ss. rows = map (dailyRow du options mp) ss
          \<and> mset ss = mset (map snd (dailySummaries du options es))
          \<and> sorted_wrt (\<lambda>a b. lc (DailyUsageSummary.date a) (DailyUsageSummary.date b) \<le> 0) ss
          \<and> ((\<forall>a \<in> set ss. \<forall>b \<in> set ss.
                 (lc (DailyUsageSummary.date a) (DailyUsageSummary.date b) \<le> 0) =
                 (DailyUsageSummary.date a \<le> DailyUsageSummary.date b)) \<longrightarrow>
               sorted (map DailyUsageSummary.date ss))))
   \<and> (\<forall>rows. buildMonthlyReport lc du options es = Inr rows \<longrightarrow>
      (\<exists>mp ss. rows = map (monthlyRow du options mp) ss
          \<and> mset ss = mset (map snd (monthlySummaries du options es))
          \<and> sorted_wrt (\<lambda>a b. lc (MonthlyUsageSummary.month a) (MonthlyUsageSummary.month b) \<le> 0) ss
          \<and> ((\<forall>a \<in> set ss. \<forall>b \<in> set ss.
                 (lc (MonthlyUsageSummary.month a) (MonthlyUsageSummary.month b) \<le> 0) =
                 (MonthlyUsageSummary.month a \<le> MonthlyUsageSummary.month b)) \<longrightarrow>
               sorted (map MonthlyUsageSummary.month ss))))
   \<and> (\<forall>rows. buildSessionReport lc du options es = Inr rows \<longrightarrow>
      sorted_wrt (\<lambda>a b. lc (lastActivity a) (lastActivity b) \<le> 0) rows
      \<and> ((\<forall>a \<in> set rows. \<forall>b \<in> set rows.
             (lc (lastActivity a) (lastActivity b) \<le> 0) = (lastActivity a \<le> lastActivity b)) \<longrightarrow>
           sorted (map lastActivity rows))
      \<and> (\<forall>r \<in> set rows.
           (CHR ''/'' \<notin> set (SessionReportRow.sessionId r) \<longrightarrow>
              directory r = [] \<and> sessionFile r = SessionReportRow.sessionId r)
           \<and> (CHR ''/'' \<in> set (SessionReportRow.sessionId r) \<longrightarrow>
              SessionReportRow.sessionId r = directory r @ ''/'' @ sessionFile r
              \<and> CHR ''/'' \<notin> set (sessionFile r))))"
proof -
  note c = assms
  have d: "\<forall>rows. buildDailyReport lc du options es = Inr rows \<longrightarrow>
      (\<exists>mp ss. rows = map (dailyRow du options mp) ss
          \<and> mset ss = mset (map snd (dailySummaries du options es))
          \<and> sorted_wrt (\<lambda>a b. lc (DailyUsageSummary.date a) (DailyUsageSummary.date b) \<le> 0) ss
          \<and> ((\<forall>a \<in> set ss. \<forall>b \<in> set ss.
                 (lc (DailyUsageSummary.date a) (DailyUsageSummary.date b) \<le> 0) =
                 (DailyUsageSummary.date a \<le> DailyUsageSummary.date b)) \<longrightarrow>
               sorted (map DailyUsageSummary.date ss)))"
  proof (intro allI impI)
    fix rows assume "buildDailyReport lc du options es = Inr rows"
    let ?ss = "array_sort (\<lambda>a b. lc (DailyUsageSummary.date a) (DailyUsageSummary.date b))
                 (map snd (dailySummaries du options es))"
    from buildDailyReport_Inr[OF \<open>buildDailyReport lc du options es = Inr rows\<close>] obtain mp where
      rows: "rows = map (dailyRow du options mp) ?ss"
      by blast
    have s: "sorted_wrt (\<lambda>a b. lc (DailyUsageSummary.date a) (DailyUsageSummary.date b) \<le> 0) ?ss"
      by (rule sorted_array_sort) (rule consistent_comp[OF c])
    have m: "mset ?ss = mset (map snd (dailySummaries du options es))"
      by (rule mset_array_sort)
    have a: "(\<forall>a \<in> set ?ss. \<forall>b \<in> set ?ss.
                 (lc (DailyUsageSummary.date a) (DailyUsageSummary.date b) \<le> 0) =
                 (DailyUsageSummary.date a \<le> DailyUsageSummary.date b)) \<longrightarrow>
               sorted (map DailyUsageSummary.date ?ss)"
      using sorted_by_agreeing[OF s] by blast
    from rows m s a
    show "\<exists>mp ss. rows = map (dailyRow du options mp) ss
          \<and> mset ss = mset (map snd (dailySummaries du options es))
          \<and> sorted_wrt (\<lambda>a b. lc (DailyUsageSummary.date a) (DailyUsageSummary.date b) \<le> 0) ss
          \<and> ((\<forall>a \<in> set ss. \<forall>b \<in> set ss.
                 (lc (DailyUsageSummary.date a) (DailyUsageSummary.date b) \<le> 0) =
                 (DailyUsageSummary.date a \<le> DailyUsageSummary.date b)) \<longrightarrow>
               sorted (map DailyUsageSummary.date ss))"
      by (intro exI[of _ mp] exI[of _ ?ss] conjI)
  qed
  have m: "\<forall>rows. buildMonthlyReport lc du options es = Inr rows \<longrightarrow>
      (\<exists>mp ss. rows = map (monthlyRow du options mp) ss
          \<and> mset ss = mset (map snd (monthlySummaries du options es))
          \<and> sorted_wrt (\<lambda>a b. lc (MonthlyUsageSummary.month a) (MonthlyUsageSummary.month b) \<le> 0) ss
          \<and> ((\<forall>a \<in> set ss. \<forall>b \<in> set ss.
                 (lc (MonthlyUsageSummary.month a) (MonthlyUsageSummary.month b) \<le> 0) =
                 (MonthlyUsageSummary.month a \<le> MonthlyUsageSummary.month b)) \<longrightarrow>
               sorted (map MonthlyUsageSummary.month ss)))"
  proof (intro allI impI)
    fix rows assume "buildMonthlyReport lc du options es = Inr rows"
    let ?ss = "array_sort (\<lambda>a b. lc (MonthlyUsageSummary.month a) (MonthlyUsageSummary.month b))
                 (map snd (monthlySummaries du options es))"
    from buildMonthlyReport_Inr[OF \<open>buildMonthlyReport lc du options es = Inr rows\<close>] obtain mp where
      rows: "rows = map (monthlyRow du options mp) ?ss"
      by blast
    have s: "sorted_wrt (\<lambda>a b. lc (MonthlyUsageSummary.month a) (MonthlyUsageSummary.month b) \<le> 0) ?ss"
      by (rule sorted_array_sort) (rule consistent_comp[OF c])
    have m: "mset ?ss = mset (map snd (monthlySummaries du options es))"
      by (rule mset_array_sort)
    have a: "(\<forall>a \<in> set ?ss. \<forall>b \<in> set ?ss.
                 (lc (MonthlyUsageSummary.month a) (MonthlyUsageSummary.month b) \<le> 0) =
                 (MonthlyUsageSummary.month a \<le> MonthlyUsageSummary.month b)) \<longrightarrow>
               sorted (map MonthlyUsageSummary.month ?ss)"
      using sorted_by_agreeing[OF s] by blast
    from rows m s a
    show "\<exists>mp ss. rows = map (monthlyRow du options mp) ss
          \<and> mset ss = mset (map snd (monthlySummaries du options es))
          \<and> sorted_wrt (\<lambda>a b. lc (MonthlyUsageSummary.month a) (MonthlyUsageSummary.month b) \<le> 0) ss
          \<and> ((\<forall>a \<in> set ss. \<forall>b \<in> set ss.
                 (lc (MonthlyUsageSummary.month a) (MonthlyUsageSummary.month b) \<le> 0) =
                 (MonthlyUsageSummary.month a \<le> MonthlyUsageSummary.month b)) \<longrightarrow>
               sorted (map MonthlyUsageSummary.month ss))"
      by (intro exI[of _ mp] exI[of _ ?ss] conjI)
  qed
  have s: "\<forall>rows. buildSessionReport lc du options es = Inr rows \<longrightarrow>
      sorted_wrt (\<lambda>a b. lc (lastActivity a) (lastActivity b) \<le> 0) rows
      \<and> ((\<forall>a \<in> set rows. \<forall>b \<in> set rows.
             (lc (lastActivity a) (lastActivity b) \<le> 0) = (lastActivity a \<le> lastActivity b)) \<longrightarrow>
           sorted (map lastActivity rows))
      \<and> (\<forall>r \<in> set rows.
           (CHR ''/'' \<notin> set (SessionReportRow.sessionId r) \<longrightarrow>
              directory r = [] \<and> sessionFile r = SessionReportRow.sessionId r)
           \<and> (CHR ''/'' \<in> set (SessionReportRow.sessionId r) \<longrightarrow>
              SessionReportRow.sessionId r = directory r @ ''/'' @ sessionFile r
              \<and> CHR ''/'' \<notin> set (sessionFile r)))"
  proof (intro allI impI)
    fix rows assume a: "buildSessionReport lc du options es = Inr rows"
    from buildSessionReport_Inr[OF a] obtain mp where
      rows: "rows = map (sessionRow mp)
                (array_sort (\<lambda>a b. lc (lastTimestamp a) (lastTimestamp b))
                   (map snd (sessionSummaries du options es)))"
      by blast
    have "sorted_wrt (\<lambda>a b. lc (lastTimestamp a) (lastTimestamp b) \<le> 0)
            (array_sort (\<lambda>a b. lc (lastTimestamp a) (lastTimestamp b))
               (map snd (sessionSummaries du options es)))"
      by (rule sorted_array_sort) (rule consistent_comp[OF c])
    then have srt: "sorted_wrt (\<lambda>a b. lc (lastActivity a) (lastActivity b) \<le> 0) rows"
      unfolding rows by (simp add: sorted_wrt_map)
    have agr: "(\<forall>a \<in> set rows. \<forall>b \<in> set rows.
             (lc (lastActivity a) (lastActivity b) \<le> 0) = (lastActivity a \<le> lastActivity b)) \<longrightarrow>
           sorted (map lastActivity rows)"
      using sorted_by_agreeing[OF srt] by blast
    have split: "\<forall>r \<in> set rows.
           (CHR ''/'' \<notin> set (SessionReportRow.sessionId r) \<longrightarrow>
              directory r = [] \<and> sessionFile r = SessionReportRow.sessionId r)
           \<and> (CHR ''/'' \<in> set (SessionReportRow.sessionId r) \<longrightarrow>
              SessionReportRow.sessionId r = directory r @ ''/'' @ sessionFile r
              \<and> CHR ''/'' \<notin> set (sessionFile r))"
    proof
      fix r assume "r \<in> set rows"
      with rows obtain s where r: "r = sessionRow mp s" by auto
      from sessionRow_split[of s mp]
      show "(CHR ''/'' \<notin> set (SessionReportRow.sessionId r) \<longrightarrow>
              directory r = [] \<and> sessionFile r = SessionReportRow.sessionId r)
           \<and> (CHR ''/'' \<in> set (SessionReportRow.sessionId r) \<longrightarrow>
              SessionReportRow.sessionId r = directory r @ ''/'' @ sessionFile r
              \<and> CHR ''/'' \<notin> set (sessionFile r))"
        unfolding r by simp
    qed
    from srt agr split show "sorted_wrt (\<lambda>a b. lc (lastActivity a) (lastActivity b) \<le> 0) rows
      \<and> ((\<forall>a \<in> set rows. \<forall>b \<in> set rows.
             (lc (lastActivity a) (lastActivity b) \<le> 0) = (lastActivity a \<le> lastActivity b)) \<longrightarrow>
           sorted (map lastActivity rows))
      \<and> (\<forall>r \<in> set rows.
           (CHR ''/'' \<notin> set (SessionReportRow.sessionId r) \<longrightarrow>
              directory r = [] \<and> sessionFile r = SessionReportRow.sessionId r)
           \<and> (CHR ''/'' \<in> set (SessionReportRow.sessionId r) \<longrightarrow>
              SessionReportRow.sessionId r = directory r @ ''/'' @ sessionFile r
              \<and> CHR ''/'' \<notin> set (sessionFile r)))"
      by (intro conjI)
  qed
  from d m s show ?thesis by (intro conjI)
qed

lemma codeUnitCompare_le: "(codeUnitCompare a b \<le> 0) = (a \<le> b)"
  by (auto simp: codeUnitCompare_def)

theorem report_rows_sorted_witness:
  "consistent_comparator codeUnitCompare
   \<and> (\<exists>rows. buildSessionReport codeUnitCompare utcDateUtils (stubOptions None None)
               [event3, event1, event2] = Inr rows
      \<and> map (\<lambda>r. (SessionReportRow.sessionId r, directory r, sessionFile r)) rows
           = [(''dir/a/session-1'', ''dir/a'', ''session-1''), (''session-2'', [], ''session-2'')]
      \<and> sorted_wrt (\<lambda>a b. codeUnitCompare (lastActivity a) (lastActivity b) \<le> 0) rows
      \<and> sorted (map lastActivity rows))"
proof -
  let ?o = "stubOptions None None"
  have c: "consistent_comparator codeUnitCompare"
    by (rule consistent_codeUnitCompare)
  have "map_option (map (\<lambda>r. (SessionReportRow.sessionId r, directory r, sessionFile r)))
          (rows_of (buildSessionReport codeUnitCompare utcDateUtils ?o [event3, event1, event2]))
        = Some [(''dir/a/session-1'', ''dir/a'', ''session-1''), (''session-2'', [], ''session-2'')]"
    by code_simp
  then obtain rows where rows:
    "buildSessionReport codeUnitCompare utcDateUtils ?o [event3, event1, event2] = Inr rows"
    "map (\<lambda>r. (SessionReportRow.sessionId r, directory r, sessionFile r)) rows
       = [(''dir/a/session-1'', ''dir/a'', ''session-1''), (''session-2'', [], ''session-2'')]"
    by (auto simp: rows_of_def split: sum.splits)
  from report_rows_sorted[OF c, where du = utcDateUtils and options = ?o
      and es = "[event3, event1, event2]", THEN conjunct2, THEN conjunct2, rule_format, OF rows(1)]
  have t: "sorted_wrt (\<lambda>a b. codeUnitCompare (lastActivity a) (lastActivity b) \<le> 0) rows
      \<and> ((\<forall>a \<in> set rows. \<forall>b \<in> set rows.
             (codeUnitCompare (lastActivity a) (lastActivity b) \<le> 0) =
             (lastActivity a \<le> lastActivity b)) \<longrightarrow>
           sorted (map lastActivity rows))
      \<and> (\<forall>r \<in> set rows.
           (CHR ''/'' \<notin> set (SessionReportRow.sessionId r) \<longrightarrow>
              directory r = [] \<and> sessionFile r = SessionReportRow.sessionId r)
           \<and> (CHR ''/'' \<in> set (SessionReportRow.sessionId r) \<longrightarrow>
              SessionReportRow.sessionId r = directory r @ ''/'' @ sessionFile r
              \<and> CHR ''/'' \<notin> set (sessionFile r)))" .
  from t have srt: "sorted_wrt (\<lambda>a b. codeUnitCompare (lastActivity a) (lastActivity b) \<le> 0) rows"
    by (rule conjunct1)
  have agr: "\<forall>a \<in> set rows. \<forall>b \<in> set rows.
             (codeUnitCompare (lastActivity a) (lastActivity b) \<le> 0) =
             (lastActivity a \<le> lastActivity b)"
    by (simp add: codeUnitCompare_le)
  from t[THEN conjunct2, THEN conjunct1] agr have cu: "sorted (map lastActivity rows)"
    by (rule mp)
  show ?thesis
  proof (intro exI conjI)
    show "consistent_comparator codeUnitCompare" by (rule c)
    show "buildSessionReport codeUnitCompare utcDateUtils ?o [event3, event1, event2] = Inr rows"
      by (rule rows(1))
    show "map (\<lambda>r. (SessionReportRow.sessionId r, directory r, sessionFile r)) rows
           = [(''dir/a/session-1'', ''dir/a'', ''session-1''), (''session-2'', [], ''session-2'')]"
      by (rule rows(2))
    show "sorted_wrt (\<lambda>a b. codeUnitCompare (lastActivity a) (lastActivity b) \<le> 0) rows"
      by (rule srt)
    show "sorted (map lastActivity rows)" by (rule cu)
  qed
qed

subsection \<open>Group totals and per-model sub-totals\<close>

lemma sum_list_update:
  "(\<Sum>(n, u) \<leftarrow> AList.update k v ms. (h u :: int)) =
     (\<Sum>(n, u) \<leftarrow> ms. h u) + h v - (case map_of ms k of None \<Rightarrow> 0 | Some u \<Rightarrow> h u)"
  by (induction ms) auto

lemma emptyModelUsage_zero [simp]:
  "inputTokens emptyModelUsage = 0" "cachedInputTokens emptyModelUsage = 0"
  "outputTokens emptyModelUsage = 0" "reasoningOutputTokens emptyModelUsage = 0"
  "totalTokens emptyModelUsage = 0"
  by (simp_all add: emptyModelUsage_def createEmptyUsage_def)

lemma createEmptyUsage_zero [simp]:
  "inputTokens createEmptyUsage = 0" "cachedInputTokens createEmptyUsage = 0"
  "outputTokens createEmptyUsage = 0" "reasoningOutputTokens createEmptyUsage = 0"
  "totalTokens createEmptyUsage = 0"
  by (simp_all add: createEmptyUsage_def)

lemma addModelUsage_mbump:
  "addModelUsage ms n e = AList.update n (mbump (map_of ms n) e) ms"
  by (simp add: addModelUsage_def mbump_def Let_def)

lemma totals_match_step:
  assumes "totals_match d ms"
  shows "totals_match (addUsage d e) (addModelUsage ms n e)"
  using assms unfolding totals_match_def addModelUsage_mbump
  by (cases "map_of ms n") (simp_all add: sum_list_update)

lemma totals_match_gstep:
  assumes "\<forall>(k, g) \<in> set G. totals_match (gdelta g) (gmodels g)"
  shows "\<forall>(k, g) \<in> set (gstep track acc e G). totals_match (gdelta g) (gmodels g)"
proof (cases acc)
  case None
  with assms show ?thesis by (simp add: gstep_def)
next
  case (Some kn)
  obtain k n where kn: "kn = (k, n)" by (cases kn)
  define g where "g = (case map_of G k of
                     Some g \<Rightarrow> g
                   | None \<Rightarrow> \<lparr>gkey = k, gdelta = createEmptyUsage, gmodels = [],
                               glast = (if track then timestamp e else [])\<rparr>)"
  have g: "totals_match (gdelta g) (gmodels g)"
  proof (cases "map_of G k")
    case None
    then show ?thesis by (simp add: g_def totals_match_def)
  next
    case (Some g')
    then have "(k, g') \<in> set G" by (rule map_of_SomeD)
    with assms Some show ?thesis by (auto simp: g_def)
  qed
  obtain g3 where step: "gstep track acc e G = AList.update k g3 G"
    and g3: "gdelta g3 = addUsage (gdelta g) e" "gmodels g3 = addModelUsage (gmodels g) n e"
    using Some kn by (auto simp: gstep_def Let_def g_def)
  from g have "totals_match (gdelta g3) (gmodels g3)"
    unfolding g3 by (rule totals_match_step)
  with assms set_update_subset[of k g3 G] show ?thesis
    unfolding step by auto
qed

lemma totals_match_fold:
  "\<forall>(k, g) \<in> set G. totals_match (gdelta g) (gmodels g) \<Longrightarrow>
   \<forall>(k, g) \<in> set (fold (\<lambda>e. gstep track (acc e) e) es G).
      totals_match (gdelta g) (gmodels g)"
proof (induction es arbitrary: G)
  case Nil
  then show ?case by simp
next
  case (Cons e es)
  from Cons.prems
  have "\<forall>(k, g) \<in> set (gstep track (acc e) e G). totals_match (gdelta g) (gmodels g)"
    by (rule totals_match_gstep)
  from Cons.IH[OF this] show ?case by simp
qed

lemma totals_match_gfold:
  "\<forall>(k, g) \<in> set (gfold track acc es). totals_match (gdelta g) (gmodels g)"
  unfolding gfold_def by (rule totals_match_fold) simp

lemma totals_match_delta_of: "totals_match (delta_of s) ms \<longleftrightarrow> totals_match s ms"
  by (simp add: totals_match_def delta_of_def)

lemma summary_totals:
  assumes sim: "map (apsnd gen) S = gfold track acc es"
    and s: "s \<in> set (map snd S)"
  shows "totals_match (gdelta (gen s)) (gmodels (gen s))"
proof -
  from s obtain k where "(k, s) \<in> set S" by auto
  then have "(k, gen s) \<in> set (map (apsnd gen) S)" by force
  with totals_match_gfold[of track acc es] show ?thesis
    unfolding sim by auto
qed

lemma summaries_totals_match:
  "\<forall>(k, s) \<in> set (dailySummaries du options es). totals_match s (DailyUsageSummary.models s)"
  "\<forall>(k, s) \<in> set (monthlySummaries du options es). totals_match s (MonthlyUsageSummary.models s)"
  "\<forall>(k, s) \<in> set (sessionSummaries du options es). totals_match s (SessionUsageSummary.models s)"
proof -
  show "\<forall>(k, s) \<in> set (dailySummaries du options es). totals_match s (DailyUsageSummary.models s)"
  proof (intro ballI, clarify)
    fix k s assume "(k, s) \<in> set (dailySummaries du options es)"
    then have "s \<in> set (map snd (dailySummaries du options es))" by force
    from summary_totals[OF dailySummaries_sim this]
    show "totals_match s (DailyUsageSummary.models s)"
      by (simp add: totals_match_delta_of)
  qed
  show "\<forall>(k, s) \<in> set (monthlySummaries du options es). totals_match s (MonthlyUsageSummary.models s)"
  proof (intro ballI, clarify)
    fix k s assume "(k, s) \<in> set (monthlySummaries du options es)"
    then have "s \<in> set (map snd (monthlySummaries du options es))" by force
    from summary_totals[OF monthlySummaries_sim this]
    show "totals_match s (MonthlyUsageSummary.models s)"
      by (simp add: totals_match_delta_of)
  qed
  show "\<forall>(k, s) \<in> set (sessionSummaries du options es). totals_match s (SessionUsageSummary.models s)"
  proof (intro ballI, clarify)
    fix k s assume "(k, s) \<in> set (sessionSummaries du options es)"
    then have "s \<in> set (map snd (sessionSummaries du options es))" by force
    from summary_totals[OF sessionSummaries_sim this]
    show "totals_match s (SessionUsageSummary.models s)"
      by (simp add: totals_match_delta_of)
  qed
qed

text \<open>
  For C10.  In the summaries, whose per-model sub-totals are a \<open>Map\<close>, the five totals of a
  group equal the sums over its per-model entries.  The row of a group has the same
  totals, but its \<open>models\<close> object lacks the entry of a model named \<open>__proto__\<close>: the
  assignment \<open>rowModels[modelName] = ...\<close> sets the prototype of the object instead.
  For the single event of such a model each builder returns a row with the totals of the
  event, its cost, and no per-model entry, so the totals are not the sums over the
  row's entries.
\<close>

theorem row_totals_diverge:
  "map (\<lambda>(k, s). (k, inputTokens s, totalTokens s,
                     map (\<lambda>(n, u). (n, inputTokens u, totalTokens u)) (DailyUsageSummary.models s)))
     (dailySummaries utcDateUtils flatOptions [eventProto])
     = [(''2025-09-13'', 5, 12, [(''__proto__'', 5, 12)])]
   \<and> map_option (map (\<lambda>r. (DailyReportRow.date r, inputTokens r, totalTokens r,
                              DailyReportRow.costUSD r, map fst (DailyReportRow.models r),
                              totals_match r (DailyReportRow.models r))))
       (rows_of (buildDailyReport codeUnitCompare utcDateUtils flatOptions [eventProto]))
     = Some [(''2025-09-13'', 5, 12, 19 / 1000000, [], False)]
   \<and> map_option (map (\<lambda>r. (MonthlyReportRow.month r, inputTokens r, totalTokens r,
                              MonthlyReportRow.costUSD r, map fst (MonthlyReportRow.models r),
                              totals_match r (MonthlyReportRow.models r))))
       (rows_of (buildMonthlyReport codeUnitCompare utcDateUtils flatOptions [eventProto]))
     = Some [(''2025-09'', 5, 12, 19 / 1000000, [], False)]
   \<and> map_option (map (\<lambda>r. (SessionReportRow.sessionId r, inputTokens r, totalTokens r,
                              SessionReportRow.costUSD r, map fst (SessionReportRow.models r),
                              totals_match r (SessionReportRow.models r))))
       (rows_of (buildSessionReport codeUnitCompare utcDateUtils flatOptions [eventProto]))
     = Some [(''session-4'', 5, 12, 19 / 1000000, [], False)]"
proof (intro conjI)
  show "map (\<lambda>(k, s). (k, inputTokens s, totalTokens s,
                     map (\<lambda>(n, u). (n, inputTokens u, totalTokens u)) (DailyUsageSummary.models s)))
     (dailySummaries utcDateUtils flatOptions [eventProto])
     = [(''2025-09-13'', 5, 12, [(''__proto__'', 5, 12)])]"
    by code_simp
  show "map_option (map (\<lambda>r. (DailyReportRow.date r, inputTokens r, totalTokens r,
                              DailyReportRow.costUSD r, map fst (DailyReportRow.models r),
                              totals_match r (DailyReportRow.models r))))
       (rows_of (buildDailyReport codeUnitCompare utcDateUtils flatOptions [eventProto]))
     = Some [(''2025-09-13'', 5, 12, 19 / 1000000, [], False)]"
    by code_simp
  show "map_option (map (\<lambda>r. (MonthlyReportRow.month r, inputTokens r, totalTokens r,
                              MonthlyReportRow.costUSD r, map fst (MonthlyReportRow.models r),
                              totals_match r (MonthlyReportRow.models r))))
       (rows_of (buildMonthlyReport codeUnitCompare utcDateUtils flatOptions [eventProto]))
     = Some [(''2025-09'', 5, 12, 19 / 1000000, [], False)]"
    by code_simp
  show "map_option (map (\<lambda>r. (SessionReportRow.sessionId r, inputTokens r, totalTokens r,
                              SessionReportRow.costUSD r, map fst (SessionReportRow.models r),
                              totals_match r (SessionReportRow.models r))))
       (rows_of (buildSessionReport codeUnitCompare utcDateUtils flatOptions [eventProto]))
     = Some [(''session-4'', 5, 12, 19 / 1000000, [], False)]"
    by code_simp
qed

subsection \<open>The accumulated usage as sums over the events\<close>

lemma sumUsage_Nil: "sumUsage [] = createEmptyUsage"
  by (simp add: sumUsage_def createEmptyUsage_def)

lemma sumUsage_snoc: "sumUsage (es @ [e]) = addUsage (sumUsage es) e"
  by (rule TokenUsageDelta.equality) (simp_all add: sumUsage_def)

lemma delta_of_emptyModelUsage: "delta_of emptyModelUsage = createEmptyUsage"
  by (simp add: delta_of_def emptyModelUsage_def createEmptyUsage_def)

lemma delta_of_mbump:
  "delta_of (mbump uo e) =
     addUsage (case uo of None \<Rightarrow> createEmptyUsage | Some u \<Rightarrow> delta_of u) e"
  by (rule TokenUsageDelta.equality)
     (simp_all add: delta_of_def createEmptyUsage_def emptyModelUsage_def split: option.splits)

lemma vbump_usage:
  "fst (snd (vbump track k n e vo)) =
     addUsage (case vo of None \<Rightarrow> createEmptyUsage | Some v \<Rightarrow> fst (snd v)) e"
  by (cases vo) (simp_all add: vbump_def split: prod.splits)

lemma vbump_models:
  "fst (snd (snd (vbump track k n e vo))) =
     (case vo of None \<Rightarrow> Map.empty | Some v \<Rightarrow> fst (snd (snd v)))
       (n \<mapsto> mbump ((case vo of None \<Rightarrow> Map.empty | Some v \<Rightarrow> fst (snd (snd v))) n) e)"
  by (cases vo) (simp_all add: vbump_def split: prod.splits)

lemma fold_astep_usage:
  "(case fold (\<lambda>e. astep track (acc e) e) es Map.empty k of
      None \<Rightarrow> createEmptyUsage | Some v \<Rightarrow> fst (snd v)) =
     sumUsage (filter (\<lambda>e. \<exists>n. acc e = Some (k, n)) es)
   \<and> (case (case fold (\<lambda>e. astep track (acc e) e) es Map.empty k of
               None \<Rightarrow> Map.empty | Some v \<Rightarrow> fst (snd (snd v))) n of
         None \<Rightarrow> filter (\<lambda>e. acc e = Some (k, n)) es = []
       | Some u \<Rightarrow> delta_of u = sumUsage (filter (\<lambda>e. acc e = Some (k, n)) es))"
proof (induction es rule: rev_induct)
  case Nil
  then show ?case by (simp add: sumUsage_Nil)
next
  case (snoc x xs)
  let ?V = "fold (\<lambda>e. astep track (acc e) e) xs Map.empty"
  let ?d = "case ?V k of None \<Rightarrow> createEmptyUsage | Some v \<Rightarrow> fst (snd v)"
  let ?M = "case ?V k of None \<Rightarrow> Map.empty | Some v \<Rightarrow> fst (snd (snd v))"
  have f: "fold (\<lambda>e. astep track (acc e) e) (xs @ [x]) Map.empty = astep track (acc x) x ?V"
    by simp
  from snoc have d: "?d = sumUsage (filter (\<lambda>e. \<exists>n. acc e = Some (k, n)) xs)"
    and M: "case ?M n of
              None \<Rightarrow> filter (\<lambda>e. acc e = Some (k, n)) xs = []
            | Some u \<Rightarrow> delta_of u = sumUsage (filter (\<lambda>e. acc e = Some (k, n)) xs)"
    by blast+
  show ?case
  proof (cases "\<exists>m. acc x = Some (k, m)")
    case False
    then have same: "astep track (acc x) x ?V k = ?V k"
      by (cases "acc x") (auto simp: astep_def)
    from False have "filter (\<lambda>e. \<exists>n. acc e = Some (k, n)) (xs @ [x]) =
                     filter (\<lambda>e. \<exists>n. acc e = Some (k, n)) xs"
      and "filter (\<lambda>e. acc e = Some (k, n)) (xs @ [x]) = filter (\<lambda>e. acc e = Some (k, n)) xs"
      by auto
    with d M show ?thesis by (simp only: f same) 
  next
    case True
    then obtain m where m: "acc x = Some (k, m)" by blast
    have V': "astep track (acc x) x ?V k = Some (vbump track k m x (?V k))"
      using m by (simp add: astep_def)
    have fk: "filter (\<lambda>e. \<exists>n. acc e = Some (k, n)) (xs @ [x]) =
              filter (\<lambda>e. \<exists>n. acc e = Some (k, n)) xs @ [x]"
      using m by simp
    have d': "fst (snd (vbump track k m x (?V k))) =
                sumUsage (filter (\<lambda>e. \<exists>n. acc e = Some (k, n)) (xs @ [x]))"
      by (simp only: vbump_usage d fk sumUsage_snoc)
    have M': "case fst (snd (snd (vbump track k m x (?V k)))) n of
                None \<Rightarrow> filter (\<lambda>e. acc e = Some (k, n)) (xs @ [x]) = []
              | Some u \<Rightarrow> delta_of u = sumUsage (filter (\<lambda>e. acc e = Some (k, n)) (xs @ [x]))"
    proof (cases "m = n")
      case False
      with m have "filter (\<lambda>e. acc e = Some (k, n)) (xs @ [x]) =
                   filter (\<lambda>e. acc e = Some (k, n)) xs" by simp
      moreover from False have "fst (snd (snd (vbump track k m x (?V k)))) n = ?M n"
        by (simp add: vbump_models)
      ultimately show ?thesis using M by (simp only:)
    next
      case True
      with m have fn: "filter (\<lambda>e. acc e = Some (k, n)) (xs @ [x]) =
                       filter (\<lambda>e. acc e = Some (k, n)) xs @ [x]" by simp
      have e: "fst (snd (snd (vbump track k m x (?V k)))) n = Some (mbump (?M n) x)"
        using True by (simp add: vbump_models)
      have "(case ?M n of None \<Rightarrow> createEmptyUsage | Some u \<Rightarrow> delta_of u) =
              sumUsage (filter (\<lambda>e. acc e = Some (k, n)) xs)"
        using M by (cases "?M n") (simp_all add: sumUsage_Nil)
      then have "delta_of (mbump (?M n) x) =
                   sumUsage (filter (\<lambda>e. acc e = Some (k, n)) (xs @ [x]))"
        by (simp only: delta_of_mbump fn sumUsage_snoc)
      then show ?thesis by (simp only: e option.case)
    qed
    from d' M' show ?thesis by (simp only: f V' option.case) 
  qed
qed

lemma gfold_usage:
  assumes g: "(k, g) \<in> set (gfold track acc es)"
  shows "gdelta g = sumUsage (filter (\<lambda>e. \<exists>n. acc e = Some (k, n)) es)"
    and "(n, u) \<in> set (gmodels g) \<Longrightarrow>
           delta_of u = sumUsage (filter (\<lambda>e. acc e = Some (k, n)) es)"
proof -
  have inv: "ginv (gfold track acc es)" by (rule ginv_gfold)
  then have "distinct (map fst (gfold track acc es))" by (simp add: ginv_def)
  with g have "map_of (gfold track acc es) k = Some g" by simp
  then have "GV (gfold track acc es) k = Some (gv g)" by (simp add: GV_def)
  moreover have "GV (gfold track acc es) = fold (\<lambda>e. astep track (acc e) e) es Map.empty"
    by (simp add: gfold_def GV_gfold_aux GV_Nil)
  ultimately have V: "fold (\<lambda>e. astep track (acc e) e) es Map.empty k = Some (gv g)"
    by (simp only:)
  from fold_astep_usage[of track acc es k n]
  have 1: "fst (snd (gv g)) = sumUsage (filter (\<lambda>e. \<exists>n. acc e = Some (k, n)) es)"
    and 2: "case fst (snd (snd (gv g))) n of
              None \<Rightarrow> filter (\<lambda>e. acc e = Some (k, n)) es = []
            | Some u \<Rightarrow> delta_of u = sumUsage (filter (\<lambda>e. acc e = Some (k, n)) es)"
    unfolding V by simp_all
  from 1 show "gdelta g = sumUsage (filter (\<lambda>e. \<exists>n. acc e = Some (k, n)) es)"
    by (simp add: gv_def)
  assume nu: "(n, u) \<in> set (gmodels g)"
  from inv g have "distinct (map fst (gmodels g))" by (auto simp: ginv_def)
  with nu have "map_of (gmodels g) n = Some u" by simp
  with 2 show "delta_of u = sumUsage (filter (\<lambda>e. acc e = Some (k, n)) es)"
    by (simp add: gv_def)
qed

lemma summaries_usage:
  assumes sim: "map (apsnd gen) S = gfold track acc es"
    and gm: "\<And>s. gmodels (gen s) = ms s"
    and ks: "(k, s) \<in> set S" and nu: "(n, u) \<in> set (ms s)"
  shows "delta_of u = sumUsage (filter (\<lambda>e. acc e = Some (k, n)) es)"
proof -
  from ks have "(k, gen s) \<in> set (map (apsnd gen) S)" by force
  then have "(k, gen s) \<in> set (gfold track acc es)" by (simp only: sim)
  moreover from nu have "(n, u) \<in> set (gmodels (gen s))" by (simp only: gm)
  ultimately show ?thesis by (rule gfold_usage(2))
qed


subsection \<open>Cost\<close>

lemma calculateCostUSD_tagged [simp]:
  "calculateCostUSD (u\<lparr>ModelUsage.pricingResolution := a, ModelUsage.pricingModel := b\<rparr>) p =
     calculateCostUSD u p"
  by (simp add: calculateCostUSD_def)

lemma calculateCostUSD_delta_of: "calculateCostUSD u p = calculateCostUSD (delta_of u) p"
  by (simp add: calculateCostUSD_def delta_of_def)

lemma rowCost_sum:
  assumes r: "resolveModels ps names [] = Inr mp" and sub: "fst ` set ms \<subseteq> set names"
  shows "rowCost mp ms =
           (\<Sum>(n, u) \<leftarrow> ms. case ps n of Inr p \<Rightarrow> calculateCostUSD u p | Inl e \<Rightarrow> 0)"
proof -
  have pm: "map_of mp = pmap ps (set names)" using r by (rule resolveModels_pmap)
  have "rowCost mp ms =
          (\<Sum>(n, u) \<leftarrow> ms. case map_of mp n of None \<Rightarrow> 0 | Some p \<Rightarrow> calculateCostUSD u p)"
    unfolding rowCost_def
    using fold_cost[where pm = "map_of mp" and f = calculateCostUSD and ms = ms and a = 0]
    by simp
  also have "\<dots> = (\<Sum>(n, u) \<leftarrow> ms.
                      case ps n of Inr p \<Rightarrow> calculateCostUSD u p | Inl e \<Rightarrow> 0)"
  proof (rule arg_cong[where f = sum_list], rule map_cong[OF refl])
    fix x assume x: "x \<in> set ms"
    obtain n u where nu: "x = (n, u)" by (cases x)
    with x sub have "n \<in> set names" by force
    then show "(case x of (n, u) \<Rightarrow>
                  case map_of mp n of None \<Rightarrow> 0 | Some p \<Rightarrow> calculateCostUSD u p) =
               (case x of (n, u) \<Rightarrow>
                  case ps n of Inr p \<Rightarrow> calculateCostUSD u p | Inl e \<Rightarrow> 0)"
      by (simp add: nu pm pmap_def split: sum.splits)
  qed
  finally show ?thesis .
qed

lemma models_in_unique:
  "s \<in> set xs \<Longrightarrow> fst ` set (f s) \<subseteq> set (uniqueModels (map f xs))"
  by (auto simp: set_uniqueModels)

lemma rows_cost:
  assumes r: "resolveModels ps (uniqueModels (map ms xs)) [] = Inr mp"
    and sub: "set ys \<subseteq> set xs"
  shows "map (\<lambda>s. rowCost mp (ms s)) ys =
           map (\<lambda>s. \<Sum>(n, u) \<leftarrow> ms s.
                       case ps n of Inr p \<Rightarrow> calculateCostUSD u p | Inl e \<Rightarrow> 0) ys
         \<and> (\<forall>s \<in> set ys. \<forall>(n, u) \<in> set (ms s). \<exists>p. ps n = Inr p)"
proof
  show "map (\<lambda>s. rowCost mp (ms s)) ys =
           map (\<lambda>s. \<Sum>(n, u) \<leftarrow> ms s.
                       case ps n of Inr p \<Rightarrow> calculateCostUSD u p | Inl e \<Rightarrow> 0) ys"
  proof (rule map_cong[OF refl])
    fix s assume "s \<in> set ys"
    with sub have "s \<in> set xs" by blast
    then have "fst ` set (ms s) \<subseteq> set (uniqueModels (map ms xs))"
      by (rule models_in_unique)
    with r show "rowCost mp (ms s) =
           (\<Sum>(n, u) \<leftarrow> ms s. case ps n of Inr p \<Rightarrow> calculateCostUSD u p | Inl e \<Rightarrow> 0)"
      by (rule rowCost_sum)
  qed
  have "\<not> isl (resolveModels ps (uniqueModels (map ms xs)) [])"
    by (simp add: r)
  then have ok: "\<forall>n \<in> set (uniqueModels (map ms xs)). \<not> isl (ps n)"
    by (simp only: resolveModels_isl) blast
  show "\<forall>s \<in> set ys. \<forall>(n, u) \<in> set (ms s). \<exists>p. ps n = Inr p"
  proof (intro ballI, clarify)
    fix s n u assume s: "s \<in> set ys" and nu: "(n, u) \<in> set (ms s)"
    from s sub have "s \<in> set xs" by blast
    then have "fst ` set (ms s) \<subseteq> set (uniqueModels (map ms xs))"
      by (rule models_in_unique)
    with nu have "n \<in> set (uniqueModels (map ms xs))" by force
    with ok have "\<not> isl (ps n)" by blast
    then show "\<exists>p. ps n = Inr p" by (cases "ps n") simp_all
  qed
qed

lemma costUSD_rows [simp]:
  "DailyReportRow.costUSD (dailyRow du options mp d) = rowCost mp (DailyUsageSummary.models d)"
  "MonthlyReportRow.costUSD (monthlyRow du options mp m) = rowCost mp (MonthlyUsageSummary.models m)"
  "SessionReportRow.costUSD (sessionRow mp s) = rowCost mp (SessionUsageSummary.models s)"
  by (simp_all add: dailyRow_def monthlyRow_def sessionRow_def Let_def)

text \<open>
  C2.  The cost of a usage under a pricing record is the non-cached input tokens times the
  input price, plus the cached input tokens times the cached-input price, plus the output
  tokens times the output price, each per million tokens; it does not depend on the
  reasoning-output or total tokens, nor on anything of the usage but its token counts.
  The costs of the rows of a report are, row by row, those of the sorted summaries: the
  cost of a summary is the sum of this cost over the entries of its \<open>Map\<close> of models, each
  entry priced once as the pricing source prices its model (every model of a build that
  succeeds has a price).  The usage of an entry is the sum of the usage of the events
  accumulated for its group and model.
\<close>

theorem cost_formula:
  "calculateCostUSD usage p =
     real_of_int (inputTokens usage - cachedInputTokens usage) / 1000000 * inputCostPerMToken p
     + real_of_int (cachedInputTokens usage) / 1000000 * cachedInputCostPerMToken p
     + real_of_int (outputTokens usage) / 1000000 * outputCostPerMToken p
   \<and> calculateCostUSD (usage\<lparr>reasoningOutputTokens := r, totalTokens := t\<rparr>) p =
       calculateCostUSD usage p
   \<and> calculateCostUSD usage p = calculateCostUSD (delta_of usage) p
   \<and> (\<forall>rows. buildDailyReport lc du options es = Inr rows \<longrightarrow>
        map DailyReportRow.costUSD rows =
          map (\<lambda>s. \<Sum>(n, u) \<leftarrow> DailyUsageSummary.models s.
                      case pricingSource options n of
                        Inr p \<Rightarrow> calculateCostUSD u p | Inl e \<Rightarrow> 0)
            (array_sort (\<lambda>a b. lc (DailyUsageSummary.date a) (DailyUsageSummary.date b))
               (map snd (dailySummaries du options es)))
        \<and> (\<forall>s \<in> set (map snd (dailySummaries du options es)).
              \<forall>(n, u) \<in> set (DailyUsageSummary.models s). \<exists>p. pricingSource options n = Inr p))
   \<and> (\<forall>rows. buildMonthlyReport lc du options es = Inr rows \<longrightarrow>
        map MonthlyReportRow.costUSD rows =
          map (\<lambda>s. \<Sum>(n, u) \<leftarrow> MonthlyUsageSummary.models s.
                      case pricingSource options n of
                        Inr p \<Rightarrow> calculateCostUSD u p | Inl e \<Rightarrow> 0)
            (array_sort (\<lambda>a b. lc (MonthlyUsageSummary.month a) (MonthlyUsageSummary.month b))
               (map snd (monthlySummaries du options es)))
        \<and> (\<forall>s \<in> set (map snd (monthlySummaries du options es)).
              \<forall>(n, u) \<in> set (MonthlyUsageSummary.models s). \<exists>p. pricingSource options n = Inr p))
   \<and> (\<forall>rows. buildSessionReport lc du options es = Inr rows \<longrightarrow>
        map SessionReportRow.costUSD rows =
          map (\<lambda>s. \<Sum>(n, u) \<leftarrow> SessionUsageSummary.models s.
                      case pricingSource options n of
                        Inr p \<Rightarrow> calculateCostUSD u p | Inl e \<Rightarrow> 0)
            (array_sort (\<lambda>a b. lc (lastTimestamp a) (lastTimestamp b))
               (map snd (sessionSummaries du options es)))
        \<and> (rows \<noteq> [] \<longrightarrow>
             (\<forall>s \<in> set (map snd (sessionSummaries du options es)).
                \<forall>(n, u) \<in> set (SessionUsageSummary.models s).
                   \<exists>p. pricingSource options n = Inr p)))
   \<and> (\<forall>k s n u. (k, s) \<in> set (dailySummaries du options es)
          \<and> (n, u) \<in> set (DailyUsageSummary.models s) \<longrightarrow>
          delta_of u = sumUsage (filter (\<lambda>e. accept_daily du options e = Some (k, n)) es))
   \<and> (\<forall>k s n u. (k, s) \<in> set (monthlySummaries du options es)
          \<and> (n, u) \<in> set (MonthlyUsageSummary.models s) \<longrightarrow>
          delta_of u = sumUsage (filter (\<lambda>e. accept_monthly du options e = Some (k, n)) es))
   \<and> (\<forall>k s n u. (k, s) \<in> set (sessionSummaries du options es)
          \<and> (n, u) \<in> set (SessionUsageSummary.models s) \<longrightarrow>
          delta_of u = sumUsage (filter (\<lambda>e. accept_session du options e = Some (k, n)) es))"
proof -
  have f1: "calculateCostUSD usage p =
     real_of_int (inputTokens usage - cachedInputTokens usage) / 1000000 * inputCostPerMToken p
     + real_of_int (cachedInputTokens usage) / 1000000 * cachedInputCostPerMToken p
     + real_of_int (outputTokens usage) / 1000000 * outputCostPerMToken p"
    by (simp add: calculateCostUSD_def MILLION_def)
  have f2: "calculateCostUSD (usage\<lparr>reasoningOutputTokens := r, totalTokens := t\<rparr>) p =
       calculateCostUSD usage p"
    by (simp add: calculateCostUSD_def)
  have f3: "calculateCostUSD usage p = calculateCostUSD (delta_of usage) p"
    by (rule calculateCostUSD_delta_of)
  have d: "\<forall>rows. buildDailyReport lc du options es = Inr rows \<longrightarrow>
        map DailyReportRow.costUSD rows =
          map (\<lambda>s. \<Sum>(n, u) \<leftarrow> DailyUsageSummary.models s.
                      case pricingSource options n of
                        Inr p \<Rightarrow> calculateCostUSD u p | Inl e \<Rightarrow> 0)
            (array_sort (\<lambda>a b. lc (DailyUsageSummary.date a) (DailyUsageSummary.date b))
               (map snd (dailySummaries du options es)))
        \<and> (\<forall>s \<in> set (map snd (dailySummaries du options es)).
              \<forall>(n, u) \<in> set (DailyUsageSummary.models s). \<exists>p. pricingSource options n = Inr p)"
  proof (intro allI impI)
    fix rows assume a: "buildDailyReport lc du options es = Inr rows"
    let ?xs = "map snd (dailySummaries du options es)"
    let ?ys = "array_sort (\<lambda>a b. lc (DailyUsageSummary.date a) (DailyUsageSummary.date b)) ?xs"
    from buildDailyReport_Inr[OF a] obtain mp where
      mp: "resolveModels (pricingSource options)
             (uniqueModels (map (\<lambda>s. DailyUsageSummary.models s) ?xs)) [] = Inr mp"
      and rows: "rows = map (dailyRow du options mp) ?ys"
      by blast
    have c: "map DailyReportRow.costUSD rows =
               map (\<lambda>s. rowCost mp (DailyUsageSummary.models s)) ?ys"
      unfolding rows by (simp add: comp_def)
    from rows_cost[OF mp, of ?ys] rows_cost[OF mp, of ?xs] c
    show "map DailyReportRow.costUSD rows =
          map (\<lambda>s. \<Sum>(n, u) \<leftarrow> DailyUsageSummary.models s.
                      case pricingSource options n of
                        Inr p \<Rightarrow> calculateCostUSD u p | Inl e \<Rightarrow> 0) ?ys
        \<and> (\<forall>s \<in> set ?xs.
              \<forall>(n, u) \<in> set (DailyUsageSummary.models s). \<exists>p. pricingSource options n = Inr p)"
      by (simp add: set_array_sort)
  qed
  have m: "\<forall>rows. buildMonthlyReport lc du options es = Inr rows \<longrightarrow>
        map MonthlyReportRow.costUSD rows =
          map (\<lambda>s. \<Sum>(n, u) \<leftarrow> MonthlyUsageSummary.models s.
                      case pricingSource options n of
                        Inr p \<Rightarrow> calculateCostUSD u p | Inl e \<Rightarrow> 0)
            (array_sort (\<lambda>a b. lc (MonthlyUsageSummary.month a) (MonthlyUsageSummary.month b))
               (map snd (monthlySummaries du options es)))
        \<and> (\<forall>s \<in> set (map snd (monthlySummaries du options es)).
              \<forall>(n, u) \<in> set (MonthlyUsageSummary.models s). \<exists>p. pricingSource options n = Inr p)"
  proof (intro allI impI)
    fix rows assume a: "buildMonthlyReport lc du options es = Inr rows"
    let ?xs = "map snd (monthlySummaries du options es)"
    let ?ys = "array_sort (\<lambda>a b. lc (MonthlyUsageSummary.month a) (MonthlyUsageSummary.month b)) ?xs"
    from buildMonthlyReport_Inr[OF a] obtain mp where
      mp: "resolveModels (pricingSource options)
             (uniqueModels (map (\<lambda>s. MonthlyUsageSummary.models s) ?xs)) [] = Inr mp"
      and rows: "rows = map (monthlyRow du options mp) ?ys"
      by blast
    have c: "map MonthlyReportRow.costUSD rows =
               map (\<lambda>s. rowCost mp (MonthlyUsageSummary.models s)) ?ys"
      unfolding rows by (simp add: comp_def)
    from rows_cost[OF mp, of ?ys] rows_cost[OF mp, of ?xs] c
    show "map MonthlyReportRow.costUSD rows =
          map (\<lambda>s. \<Sum>(n, u) \<leftarrow> MonthlyUsageSummary.models s.
                      case pricingSource options n of
                        Inr p \<Rightarrow> calculateCostUSD u p | Inl e \<Rightarrow> 0) ?ys
        \<and> (\<forall>s \<in> set ?xs.
              \<forall>(n, u) \<in> set (MonthlyUsageSummary.models s). \<exists>p. pricingSource options n = Inr p)"
      by (simp add: set_array_sort)
  qed
  have s: "\<forall>rows. buildSessionReport lc du options es = Inr rows \<longrightarrow>
        map SessionReportRow.costUSD rows =
          map (\<lambda>s. \<Sum>(n, u) \<leftarrow> SessionUsageSummary.models s.
                      case pricingSource options n of
                        Inr p \<Rightarrow> calculateCostUSD u p | Inl e \<Rightarrow> 0)
            (array_sort (\<lambda>a b. lc (lastTimestamp a) (lastTimestamp b))
               (map snd (sessionSummaries du options es)))
        \<and> (rows \<noteq> [] \<longrightarrow>
             (\<forall>s \<in> set (map snd (sessionSummaries du options es)).
                \<forall>(n, u) \<in> set (SessionUsageSummary.models s).
                   \<exists>p. pricingSource options n = Inr p))"
  proof (intro allI impI)
    fix rows assume a: "buildSessionReport lc du options es = Inr rows"
    let ?xs = "map snd (sessionSummaries du options es)"
    let ?ys = "array_sort (\<lambda>a b. lc (lastTimestamp a) (lastTimestamp b)) ?xs"
    from buildSessionReport_Inr[OF a] obtain mp where
      mp: "resolveModels (pricingSource options)
             (uniqueModels (map (\<lambda>s. SessionUsageSummary.models s) ?xs)) [] = Inr mp"
      and rows: "rows = map (sessionRow mp) ?ys"
      by blast
    have c: "map SessionReportRow.costUSD rows =
               map (\<lambda>s. rowCost mp (SessionUsageSummary.models s)) ?ys"
      unfolding rows by (simp add: comp_def)
    from rows_cost[OF mp, of ?ys] rows_cost[OF mp, of ?xs] c
    show "map SessionReportRow.costUSD rows =
          map (\<lambda>s. \<Sum>(n, u) \<leftarrow> SessionUsageSummary.models s.
                      case pricingSource options n of
                        Inr p \<Rightarrow> calculateCostUSD u p | Inl e \<Rightarrow> 0) ?ys
        \<and> (rows \<noteq> [] \<longrightarrow>
             (\<forall>s \<in> set ?xs.
                \<forall>(n, u) \<in> set (SessionUsageSummary.models s).
                   \<exists>p. pricingSource options n = Inr p))"
      by (simp add: set_array_sort)
  qed
  have ud: "\<forall>k s n u. (k, s) \<in> set (dailySummaries du options es)
          \<and> (n, u) \<in> set (DailyUsageSummary.models s) \<longrightarrow>
          delta_of u = sumUsage (filter (\<lambda>e. accept_daily du options e = Some (k, n)) es)"
    using summaries_usage[OF dailySummaries_sim, where ms = DailyUsageSummary.models]
    by (simp only: gmodels_gen_daily) blast
  have um: "\<forall>k s n u. (k, s) \<in> set (monthlySummaries du options es)
          \<and> (n, u) \<in> set (MonthlyUsageSummary.models s) \<longrightarrow>
          delta_of u = sumUsage (filter (\<lambda>e. accept_monthly du options e = Some (k, n)) es)"
    using summaries_usage[OF monthlySummaries_sim, where ms = MonthlyUsageSummary.models]
    by (simp only: gmodels_gen_monthly) blast
  have us: "\<forall>k s n u. (k, s) \<in> set (sessionSummaries du options es)
          \<and> (n, u) \<in> set (SessionUsageSummary.models s) \<longrightarrow>
          delta_of u = sumUsage (filter (\<lambda>e. accept_session du options e = Some (k, n)) es)"
    using summaries_usage[OF sessionSummaries_sim, where ms = SessionUsageSummary.models]
    by (simp only: gmodels_gen_session) blast
  from f1 f2 f3 d m s ud um us show ?thesis by (intro conjI)
qed

theorem cost_formula_witness:
  "\<exists>rows. buildDailyReport codeUnitCompare utcDateUtils
            (stubOptions (Some ''2025-09-11'') (Some ''2025-09-12'')) [event1, event2, event3]
          = Inr rows
      \<and> map DailyReportRow.costUSD rows = [6611 / 1000000, 21 / 2000]
      \<and> map DailyReportRow.costUSD rows =
          map (\<lambda>s. \<Sum>(n, u) \<leftarrow> DailyUsageSummary.models s.
                      case stubPricingSource n of
                        Inr p \<Rightarrow> calculateCostUSD u p | Inl e \<Rightarrow> 0)
            (array_sort
               (\<lambda>a b. codeUnitCompare (DailyUsageSummary.date a) (DailyUsageSummary.date b))
               (map snd (dailySummaries utcDateUtils
                           (stubOptions (Some ''2025-09-11'') (Some ''2025-09-12''))
                           [event1, event2, event3])))"
proof -
  let ?o = "stubOptions (Some ''2025-09-11'') (Some ''2025-09-12'')"
  have "map_option (map DailyReportRow.costUSD)
          (rows_of (buildDailyReport codeUnitCompare utcDateUtils ?o [event1, event2, event3]))
        = Some [6611 / 1000000, 21 / 2000]"
    by code_simp
  then obtain rows where rows:
    "buildDailyReport codeUnitCompare utcDateUtils ?o [event1, event2, event3] = Inr rows"
    "map DailyReportRow.costUSD rows = [6611 / 1000000, 21 / 2000]"
    by (auto simp: rows_of_def split: sum.splits)
  have ps: "pricingSource ?o = stubPricingSource" by (simp add: stubOptions_def)
  from cost_formula[where lc = codeUnitCompare and du = utcDateUtils and options = ?o
      and es = "[event1, event2, event3]",
      THEN conjunct2, THEN conjunct2, THEN conjunct2, THEN conjunct1, rule_format, OF rows(1),
      THEN conjunct1]
  have c: "map DailyReportRow.costUSD rows =
          map (\<lambda>s. \<Sum>(n, u) \<leftarrow> DailyUsageSummary.models s.
                      case stubPricingSource n of
                        Inr p \<Rightarrow> calculateCostUSD u p | Inl e \<Rightarrow> 0)
            (array_sort
               (\<lambda>a b. codeUnitCompare (DailyUsageSummary.date a) (DailyUsageSummary.date b))
               (map snd (dailySummaries utcDateUtils ?o [event1, event2, event3])))"
    unfolding ps .
  show ?thesis
  proof (intro exI conjI)
    show "buildDailyReport codeUnitCompare utcDateUtils ?o [event1, event2, event3] = Inr rows"
      by (rule rows(1))
    show "map DailyReportRow.costUSD rows = [6611 / 1000000, 21 / 2000]" by (rule rows(2))
    show "map DailyReportRow.costUSD rows =
          map (\<lambda>s. \<Sum>(n, u) \<leftarrow> DailyUsageSummary.models s.
                      case stubPricingSource n of
                        Inr p \<Rightarrow> calculateCostUSD u p | Inl e \<Rightarrow> 0)
            (array_sort
               (\<lambda>a b. codeUnitCompare (DailyUsageSummary.date a) (DailyUsageSummary.date b))
               (map snd (dailySummaries utcDateUtils ?o [event1, event2, event3])))"
      by (rule c)
  qed
qed

end
